theory Spec2Isabelle
  imports Complex_Main "HOL-Library.Word"
begin

section \<open>The rank-local domain of the Gray-Scott engine (gray-scott.h)\<close>

text \<open>
  The class keeps the geometry of one rank in members of type \<open>size_t\<close>, and its index
  functions take and return \<open>int\<close>. On the LP64 platforms the engine is built for these
  are 64-bit unsigned and 32-bit two's complement integers. In a C++ expression that mixes
  the two, the \<open>int\<close> operand is converted to \<open>size_t\<close> (sign extension, \<open>scast\<close>), the
  arithmetic wraps modulo \<open>2 ^ 64\<close>, and a \<open>size_t\<close> returned or stored as \<open>int\<close> keeps
  its low 32 bits (\<open>ucast\<close>).
\<close>

type_synonym size_t = "64 word"
type_synonym cint = "32 word"

record GrayScott =
  npx :: size_t
  npy :: size_t
  npz :: size_t
  px :: size_t
  py :: size_t
  pz :: size_t
  size_x :: size_t
  size_y :: size_t
  size_z :: size_t
  offset_x :: size_t
  offset_y :: size_t
  offset_z :: size_t

text \<open>\<open>GrayScott::is_inside\<close>: six early returns, in the order of the source.\<close>

definition is_inside :: "GrayScott \<Rightarrow> cint \<Rightarrow> cint \<Rightarrow> cint \<Rightarrow> bool" where
  "is_inside gs x y z =
     (if (scast x :: size_t) < offset_x gs then False
      else if (scast x :: size_t) \<ge> offset_x gs + size_x gs then False
      else if (scast y :: size_t) < offset_y gs then False
      else if (scast y :: size_t) \<ge> offset_y gs + size_y gs then False
      else if (scast z :: size_t) < offset_z gs then False
      else if (scast z :: size_t) \<ge> offset_z gs + size_z gs then False
      else True)"

text \<open>\<open>GrayScott::l2i\<close>: the sum is formed in \<open>size_t\<close> and returned as \<open>int\<close>.\<close>

definition l2i :: "GrayScott \<Rightarrow> cint \<Rightarrow> cint \<Rightarrow> cint \<Rightarrow> cint" where
  "l2i gs x y z =
     ucast ((scast x :: size_t) + scast y * (size_x gs + 2)
            + scast z * (size_x gs + 2) * (size_y gs + 2))"

text \<open>
  \<open>GrayScott::g2i\<close>: each difference is formed in \<open>size_t\<close> and stored in an \<open>int\<close>; the
  \<open>+ 1\<close> is \<open>int\<close> arithmetic (taken to wrap, where C++ leaves the overflow undefined).
\<close>

definition g2i :: "GrayScott \<Rightarrow> cint \<Rightarrow> cint \<Rightarrow> cint \<Rightarrow> cint" where
  "g2i gs gx gy gz =
     (let x = (ucast ((scast gx :: size_t) - offset_x gs) :: cint);
          y = (ucast ((scast gy :: size_t) - offset_y gs) :: cint);
          z = (ucast ((scast gz :: size_t) - offset_z gs) :: cint)
      in l2i gs (x + 1) (y + 1) (z + 1))"

text \<open>
  The ghost-padded box of a rank, read off the class comment and the index formula: the
  local coordinates \<open>0 .. size + 1\<close> on each axis, \<open>(size_x + 2) (size_y + 2) (size_z + 2)\<close>
  cells in all, of which the cells with every coordinate in \<open>1 .. size\<close> are the interior.
\<close>

definition padded_volume :: "GrayScott \<Rightarrow> int" where
  "padded_volume gs =
     (uint (size_x gs) + 2) * (uint (size_y gs) + 2) * (uint (size_z gs) + 2)"

definition in_padded_box :: "GrayScott \<Rightarrow> cint \<Rightarrow> cint \<Rightarrow> cint \<Rightarrow> bool" where
  "in_padded_box gs x y z =
     (0 \<le> sint x \<and> sint x < uint (size_x gs) + 2 \<and>
      0 \<le> sint y \<and> sint y < uint (size_y gs) + 2 \<and>
      0 \<le> sint z \<and> sint z < uint (size_z gs) + 2)"

text \<open>The cell that a flat index addresses in the padded layout (x fastest, then y, then z).\<close>

definition cell_of :: "GrayScott \<Rightarrow> int \<Rightarrow> int \<times> int \<times> int" where
  "cell_of gs n =
     (n mod (uint (size_x gs) + 2),
      (n div (uint (size_x gs) + 2)) mod (uint (size_y gs) + 2),
      n div ((uint (size_x gs) + 2) * (uint (size_y gs) + 2)))"

definition interior_cell :: "GrayScott \<Rightarrow> int \<times> int \<times> int \<Rightarrow> bool" where
  "interior_cell gs c =
     (case c of (x, y, z) \<Rightarrow>
        1 \<le> x \<and> x \<le> uint (size_x gs) \<and>
        1 \<le> y \<and> y \<le> uint (size_y gs) \<and>
        1 \<le> z \<and> z \<le> uint (size_z gs))"

text \<open>A single rank that owns a whole cubic domain of edge \<open>n\<close> (a run on one process).\<close>

definition single_rank :: "size_t \<Rightarrow> GrayScott" where
  "single_rank n =
     \<lparr>npx = 1, npy = 1, npz = 1, px = 0, py = 0, pz = 0,
      size_x = n, size_y = n, size_z = n,
      offset_x = 0, offset_y = 0, offset_z = 0\<rparr>"

text \<open>
  The second of two ranks that split a cubic domain of edge \<open>n\<close> along x (process grid
  \<open>2 \<times> 1 \<times> 1\<close>, \<open>n\<close> even): it owns the upper half of the x range.
\<close>

definition second_of_two_ranks :: "size_t \<Rightarrow> GrayScott" where
  "second_of_two_ranks n =
     \<lparr>npx = 2, npy = 1, npz = 1, px = 1, py = 0, pz = 0,
      size_x = n div 2, size_y = n, size_z = n,
      offset_x = n div 2, offset_y = 0, offset_z = 0\<rparr>"

section \<open>Decompositions of the global domain\<close>

text \<open>
  The constructor that fills \<open>size_*\<close> and \<open>offset_*\<close> is not part of the header. A
  decomposition is therefore described by what it yields: for each axis the list of local
  extents, ordered by process coordinate. The rank at process coordinate \<open>(i, j, k)\<close> has
  the extents at these positions, and as offsets the sums of the extents that precede
  them, accumulated in \<open>size_t\<close>.
\<close>

definition rank_at ::
  "size_t list \<Rightarrow> size_t list \<Rightarrow> size_t list \<Rightarrow> nat \<times> nat \<times> nat \<Rightarrow> GrayScott" where
  "rank_at xs ys zs c =
     (case c of (i, j, k) \<Rightarrow>
        \<lparr>npx = of_nat (length xs), npy = of_nat (length ys), npz = of_nat (length zs),
         px = of_nat i, py = of_nat j, pz = of_nat k,
         size_x = xs ! i, size_y = ys ! j, size_z = zs ! k,
         offset_x = sum_list (take i xs), offset_y = sum_list (take j ys),
         offset_z = sum_list (take k zs)\<rparr>)"

text \<open>The process coordinates of the grid, x fastest.\<close>

definition process_grid ::
  "'a list \<Rightarrow> 'a list \<Rightarrow> 'a list \<Rightarrow> (nat \<times> nat \<times> nat) list" where
  "process_grid xs ys zs =
     concat (map (\<lambda>k. concat (map (\<lambda>j. map (\<lambda>i. (i, j, k)) [0 ..< length xs])
       [0 ..< length ys])) [0 ..< length zs])"

text \<open>A decomposition is valid for edge length \<open>L\<close> when the extents of each axis sum to \<open>L\<close>.\<close>

definition valid_decomposition ::
  "size_t \<Rightarrow> size_t list \<Rightarrow> size_t list \<Rightarrow> size_t list \<Rightarrow> bool" where
  "valid_decomposition L xs ys zs =
     (sum_list (map unat xs) = unat L \<and> sum_list (map unat ys) = unat L \<and>
      sum_list (map unat zs) = unat L)"

text \<open>The pair of comparisons that \<open>is_inside\<close> makes along one axis.\<close>

definition axis_inside :: "size_t \<Rightarrow> size_t \<Rightarrow> cint \<Rightarrow> bool" where
  "axis_inside off sz x = (off \<le> scast x \<and> (scast x :: size_t) < off + sz)"

text \<open>The extents of an axis of length 8 split evenly over two processes.\<close>

definition halves :: "size_t list" where
  "halves = [4, 4]"

section \<open>Local extents of a rank\<close>

text \<open>The error taxonomy of the engine and of its persistence collaborator.\<close>

datatype error =
  InvalidConfiguration | CommunicationFailure | PersistenceFailure | StepUnavailable

record LocalDomain =
  ld_size_x :: nat
  ld_size_y :: nat
  ld_size_z :: nat
  ld_offset_x :: nat
  ld_offset_y :: nat
  ld_offset_z :: nat

text \<open>
  Modelled from the spec: \<open>local_extents(L, coordinate, topology) -> LocalDomain\<close>, whose
  code (the constructor of \<open>GrayScott\<close>) is not in the header. Along one axis with \<open>n\<close>
  processes, \<open>L\<close> is divided as evenly as possible, the remainder \<open>L mod n\<close> going one cell
  each to the lowest process coordinates; the offset of a coordinate accumulates the
  extents of the coordinates before it. An axis shorter than its process count is an
  \<open>InvalidConfiguration\<close>.
\<close>

definition axis_extent :: "nat \<Rightarrow> nat \<Rightarrow> nat \<Rightarrow> nat" where
  "axis_extent L n p = L div n + (if p < L mod n then 1 else 0)"

definition axis_offset :: "nat \<Rightarrow> nat \<Rightarrow> nat \<Rightarrow> nat" where
  "axis_offset L n p = sum_list (map (axis_extent L n) [0 ..< p])"

definition local_extents ::
  "nat \<Rightarrow> nat \<times> nat \<times> nat \<Rightarrow> nat \<times> nat \<times> nat \<Rightarrow> error + LocalDomain" where
  "local_extents L coordinate topology =
     (case coordinate of (cx, cy, cz) \<Rightarrow>
      case topology of (nx, ny, nz) \<Rightarrow>
        if L < nx \<or> L < ny \<or> L < nz then Inl InvalidConfiguration
        else Inr \<lparr>ld_size_x = axis_extent L nx cx,
                  ld_size_y = axis_extent L ny cy,
                  ld_size_z = axis_extent L nz cz,
                  ld_offset_x = axis_offset L nx cx,
                  ld_offset_y = axis_offset L ny cy,
                  ld_offset_z = axis_offset L nz cz\<rparr>)"

section \<open>The step-oriented persistence collaborator and the write/read demo\<close>

text \<open>
  Modelled from the spec: the persistence collaborator (the ADIOS2 engine behind
  \<open>BeginStep\<close>, \<open>Put\<close>, \<open>Get\<close>, \<open>EndStep\<close> and \<open>Close\<close>), which is a library outside the
  repository. A persisted sequence is the list of its steps, in the order in which they
  were written; a step maps array names to buffers. \<open>begin_step\<close> and \<open>end_step\<close> bracket
  one write or one read. A reader is at a position in the sequence: its \<open>begin_step\<close>
  answers \<open>OK\<close> while a step is left and \<open>EndOfStream\<close> after the last one; a read outside
  a step fails with \<open>StepUnavailable\<close>. The field \<open>history\<close> records the answers of the
  reader's \<open>begin_step\<close> calls, in order. float values are taken as reals.
\<close>

datatype StepStatus = OK | NotReady | EndOfStream | OtherError

type_synonym Step = "string \<rightharpoonup> real list"

record Engine =
  steps :: "Step list"
  current :: "Step option"
  cursor :: nat
  history :: "StepStatus list"

definition open_write :: Engine where
  "open_write = \<lparr>steps = [], current = None, cursor = 0, history = []\<rparr>"

definition open_read :: "Step list \<Rightarrow> Engine" where
  "open_read file = \<lparr>steps = file, current = None, cursor = 0, history = []\<rparr>"

definition writer_begin_step :: "Engine \<Rightarrow> Engine" where
  "writer_begin_step w = w\<lparr>current := Some Map.empty\<rparr>"

definition put :: "Engine \<Rightarrow> string \<Rightarrow> real list \<Rightarrow> Engine" where
  "put w name buf =
     w\<lparr>current := Some ((case current w of None \<Rightarrow> Map.empty | Some s \<Rightarrow> s)(name \<mapsto> buf))\<rparr>"

definition writer_end_step :: "Engine \<Rightarrow> Engine" where
  "writer_end_step w =
     (case current w of
        None \<Rightarrow> w
      | Some s \<Rightarrow> w\<lparr>steps := steps w @ [s], current := None\<rparr>)"

definition begin_step :: "Engine \<Rightarrow> StepStatus \<times> Engine" where
  "begin_step r =
     (if cursor r < length (steps r)
      then (OK, r\<lparr>current := Some (steps r ! cursor r), history := history r @ [OK]\<rparr>)
      else (EndOfStream, r\<lparr>history := history r @ [EndOfStream]\<rparr>))"

definition get :: "Engine \<Rightarrow> string \<Rightarrow> nat \<Rightarrow> nat \<Rightarrow> error + real list" where
  "get r name start count =
     (case current r of
        None \<Rightarrow> Inl StepUnavailable
      | Some s \<Rightarrow>
          (case s name of
             None \<Rightarrow> Inl PersistenceFailure
           | Some d \<Rightarrow>
               if start + count \<le> length d then Inr (take count (drop start d))
               else Inl PersistenceFailure))"

definition end_step :: "Engine \<Rightarrow> Engine" where
  "end_step r =
     (case current r of
        None \<Rightarrow> r
      | Some s \<Rightarrow> r\<lparr>current := None, cursor := Suc (cursor r)\<rparr>)"

definition close :: "Engine \<Rightarrow> Engine" where
  "close e = e\<lparr>current := None\<rparr>"

text \<open>
  The HIP runtime of the demo program (unnamed source file \<open>part_000\<close>): which of its calls
  succeed is a parameter of a run. The Kokkos variant of the program
  (\<open>write-read-kokkos.cpp\<close>) has the same loops without these calls, that is, the run in
  which all of them succeed. \<open>sync_ok k\<close> is the outcome of the \<open>k\<close>-th
  \<open>hipDeviceSynchronize\<close> of \<open>BPWrite\<close>, \<open>memcpy_ok k\<close> that of the \<open>hipMemcpy\<close> of read step
  \<open>k\<close>.
\<close>

record Hip =
  malloc_ok :: bool
  sync_ok :: "nat \<Rightarrow> bool"
  memcpy_ok :: "nat \<Rightarrow> bool"

text \<open>The two kernels, each launched with one block per element.\<close>

definition hip_initialize :: "nat \<Rightarrow> real list" where
  "hip_initialize N = map real [0 ..< N]"

definition hip_increment :: "real list \<Rightarrow> real \<Rightarrow> real list" where
  "hip_increment vec val = map (\<lambda>v. v + val) vec"

text \<open>
  The loop of \<open>BPWrite\<close>, by the number of iterations left. Each iteration brackets one
  \<open>Put\<close> of the device buffer, then increments the buffer; a failed synchronisation
  returns 1 without closing the engine.
\<close>

fun BPWrite_loop :: "Hip \<Rightarrow> nat \<Rightarrow> nat \<Rightarrow> Engine \<Rightarrow> real list \<Rightarrow> int \<times> Engine" where
  "BPWrite_loop hip 0 step w gpuSimData = (0, close w)"
| "BPWrite_loop hip (Suc k) step w gpuSimData =
     (let w1 = writer_begin_step w;
          w2 = put w1 ''data'' gpuSimData;
          w3 = writer_end_step w2;
          gpuSimData' = hip_increment gpuSimData 10
      in if \<not> sync_ok hip (Suc step) then (1, w3)
         else BPWrite_loop hip k (Suc step) w3 gpuSimData')"

text \<open>
  \<open>BPWrite\<close>: the loop condition \<open>step < nSteps\<close> compares a \<open>size_t\<close> with an \<open>int\<close>, so
  the loop runs \<open>(size_t) nSteps\<close> times. The result is the return code and the persisted
  sequence.
\<close>

definition BPWrite :: "Hip \<Rightarrow> nat \<Rightarrow> cint \<Rightarrow> int \<times> Step list" where
  "BPWrite hip N nSteps =
     (if \<not> malloc_ok hip then (1, [])
      else if \<not> sync_ok hip 0 then (1, [])
      else case BPWrite_loop hip (unat (scast nSteps :: size_t)) 0 open_write (hip_initialize N)
           of (ret, w) \<Rightarrow> (ret, steps w))"

text \<open>
  What stops a run other than a return: an exception thrown by the collaborator, or the
  read of a vector element that does not exist (\<open>cpuData[0]\<close>, \<open>cpuData[1]\<close> and
  \<open>cpuData[size - 1]\<close> are printed at every step).
\<close>

datatype failure = Thrown error | OutOfRange

record Line =
  line_step :: "32 word"
  line_size :: nat
  line_first :: real
  line_second :: real
  line_last :: real

text \<open>
  The loop of \<open>BPRead\<close>: it runs as long as \<open>BeginStep\<close> answers \<open>OK\<close>; the counter is an
  \<open>unsigned int\<close>. The result is the return code, the reader and the printed lines.
\<close>

function BPRead_loop ::
  "Hip \<Rightarrow> nat \<Rightarrow> Engine \<Rightarrow> 32 word \<Rightarrow> Line list \<Rightarrow> failure + int \<times> Engine \<times> Line list" where
  "BPRead_loop hip N r step out =
     (case begin_step r of
        (OK, r1) \<Rightarrow>
          (case get r1 ''data'' 0 N of
             Inl e \<Rightarrow> Inl (Thrown e)
           | Inr cpuData \<Rightarrow>
               let r2 = end_step r1 in
               if \<not> memcpy_ok hip (unat step) then Inr (1, r2, out)
               else if N < 2 then Inl OutOfRange
               else BPRead_loop hip N r2 (step + 1)
                      (out @ [\<lparr>line_step = step, line_size = length cpuData,
                                line_first = cpuData ! 0, line_second = cpuData ! 1,
                                line_last = cpuData ! (length cpuData - 1)\<rparr>]))
      | (status, r1) \<Rightarrow> Inr (0, close r1, out))"
  by pat_completeness auto
termination
proof (relation "measure (\<lambda>(hip, N, r, step, out). length (steps r) - cursor r)", goal_cases)
  case 1
  show ?case by simp
next
  case (2 hip N r step out status r1 cpuData r2)
  have lt: "cursor r < length (steps r)"
    using 2(1,2) by (auto simp: begin_step_def split: if_splits)
  then have "r1 = r\<lparr>current := Some (steps r ! cursor r), history := history r @ [OK]\<rparr>"
    using 2(1) by (auto simp: begin_step_def)
  then have "cursor r2 = Suc (cursor r)" "steps r2 = steps r"
    using 2(4) by (simp_all add: end_step_def)
  then show ?case using lt by simp
qed

declare BPRead_loop.simps [simp del]

definition BPRead :: "Hip \<Rightarrow> Step list \<Rightarrow> nat \<Rightarrow> failure + int \<times> Engine \<times> Line list" where
  "BPRead hip file N =
     (if \<not> malloc_ok hip then Inr (1, open_read file, [])
      else BPRead_loop hip N (open_read file) 0 [])"

text \<open>A run in which every HIP call succeeds.\<close>

definition hip_all_ok :: Hip where
  "hip_all_ok = \<lparr>malloc_ok = True, sync_ok = (\<lambda>k. True), memcpy_ok = (\<lambda>k. True)\<rparr>"

text \<open>A persisted sequence suits a reader of \<open>N\<close> values when each step holds them.\<close>

definition holds_data :: "nat \<Rightarrow> Step \<Rightarrow> bool" where
  "holds_data N s = (case s ''data'' of None \<Rightarrow> False | Some d \<Rightarrow> N \<le> length d)"

section \<open>Fields and the reaction-diffusion stepper\<close>

text \<open>
  Modelled from the spec: the Field Store, whose code (\<open>gray-scott.cpp\<close>) is not among the
  sources; the header only declares \<open>calc\<close>, \<open>calcU\<close>, \<open>calcV\<close>, \<open>laplacian\<close>,
  \<open>data_noghost\<close> and \<open>restart\<close>. A field is a contiguous buffer of
  \<open>(size_x + 2) (size_y + 2) (size_z + 2)\<close> cells; local coordinate 0 and \<open>size + 1\<close> on each
  axis are ghost cells, and the cell \<open>(x, y, z)\<close> is stored at
  \<open>x + y * (size_x + 2) + z * (size_x + 2) * (size_y + 2)\<close>. double values are taken as
  reals.
\<close>

definition field_index :: "LocalDomain \<Rightarrow> nat \<times> nat \<times> nat \<Rightarrow> nat" where
  "field_index d c =
     (case c of (x, y, z) \<Rightarrow>
        x + y * (ld_size_x d + 2) + z * (ld_size_x d + 2) * (ld_size_y d + 2))"

definition field_size :: "LocalDomain \<Rightarrow> nat" where
  "field_size d = (ld_size_x d + 2) * (ld_size_y d + 2) * (ld_size_z d + 2)"

definition in_field :: "LocalDomain \<Rightarrow> nat \<times> nat \<times> nat \<Rightarrow> bool" where
  "in_field d c =
     (case c of (x, y, z) \<Rightarrow> x < ld_size_x d + 2 \<and> y < ld_size_y d + 2 \<and> z < ld_size_z d + 2)"

definition interior_coord :: "LocalDomain \<Rightarrow> nat \<times> nat \<times> nat \<Rightarrow> bool" where
  "interior_coord d c =
     (case c of (x, y, z) \<Rightarrow>
        1 \<le> x \<and> x \<le> ld_size_x d \<and> 1 \<le> y \<and> y \<le> ld_size_y d \<and> 1 \<le> z \<and> z \<le> ld_size_z d)"

definition ghost :: "LocalDomain \<Rightarrow> nat \<times> nat \<times> nat \<Rightarrow> bool" where
  "ghost d c = (in_field d c \<and> \<not> interior_coord d c)"

text \<open>The interior cells in the order of a sweep: x fastest, then y, then z.\<close>

definition interior_cells :: "LocalDomain \<Rightarrow> (nat \<times> nat \<times> nat) list" where
  "interior_cells d =
     concat (map (\<lambda>z. concat (map (\<lambda>y. map (\<lambda>x. (x, y, z)) [1 ..< ld_size_x d + 1])
       [1 ..< ld_size_y d + 1])) [1 ..< ld_size_z d + 1])"

text \<open>A loop that stores \<open>val c\<close> at position \<open>idx c\<close> of a buffer, for each cell \<open>c\<close> in turn.\<close>

definition write_cells :: "('c \<Rightarrow> nat) \<Rightarrow> ('c \<Rightarrow> 'a) \<Rightarrow> 'c list \<Rightarrow> 'a list \<Rightarrow> 'a list" where
  "write_cells idx val cs buf = fold (\<lambda>c b. b[idx c := val c]) cs buf"

text \<open>
  Modelled from the spec: the Settings value object (the header \<open>settings.h\<close> is not among
  the sources). The fields carry the prefix \<open>cfg\<close>.
\<close>

record Settings =
  cfg_L :: nat
  cfg_Du :: real
  cfg_Dv :: real
  cfg_F :: real
  cfg_k :: real
  cfg_dt :: real
  cfg_noise :: real
  cfg_steps :: nat
  cfg_plotgap :: nat
  cfg_npx :: nat
  cfg_npy :: nat
  cfg_npz :: nat

text \<open>The four buffers of the class: current \<open>u\<close>, \<open>v\<close> and next \<open>u2\<close>, \<open>v2\<close>.\<close>

record Fields =
  u :: "real list"
  v :: "real list"
  u2 :: "real list"
  v2 :: "real list"

text \<open>
  Modelled from the spec: the stepper of section 4.4. \<open>laplacian\<close> is the 7-point stencil
  with grid spacing 1 (centre weight \<open>-6\<close>, each face neighbour weight 1); it is applied at
  interior cells only, where \<open>ix - 1\<close> does not fall below 0. \<open>calcU\<close> and \<open>calcV\<close> are the
  reaction terms \<open>R_u = - U V\<^sup>2 + F (1 - U)\<close> and \<open>R_v = U V\<^sup>2 - (F + k) V\<close>.
\<close>

definition laplacian :: "LocalDomain \<Rightarrow> nat \<Rightarrow> nat \<Rightarrow> nat \<Rightarrow> real list \<Rightarrow> real" where
  "laplacian d ix iy iz s =
     s ! field_index d (ix - 1, iy, iz) + s ! field_index d (ix + 1, iy, iz)
     + s ! field_index d (ix, iy - 1, iz) + s ! field_index d (ix, iy + 1, iz)
     + s ! field_index d (ix, iy, iz - 1) + s ! field_index d (ix, iy, iz + 1)
     - 6 * s ! field_index d (ix, iy, iz)"

definition calcU :: "Settings \<Rightarrow> real \<Rightarrow> real \<Rightarrow> real" where
  "calcU settings tu tv = - tu * tv * tv + cfg_F settings * (1 - tu)"

definition calcV :: "Settings \<Rightarrow> real \<Rightarrow> real \<Rightarrow> real" where
  "calcV settings tu tv = tu * tv * tv - (cfg_F settings + cfg_k settings) * tv"

text \<open>The value that one step gives a cell, read from the current buffers only.\<close>

definition next_u :: "Settings \<Rightarrow> LocalDomain \<Rightarrow> Fields \<Rightarrow> nat \<times> nat \<times> nat \<Rightarrow> real" where
  "next_u settings d f c =
     (case c of (x, y, z) \<Rightarrow>
        u f ! field_index d c
        + cfg_dt settings * (cfg_Du settings * laplacian d x y z (u f)
                             + calcU settings (u f ! field_index d c) (v f ! field_index d c)))"

definition next_v :: "Settings \<Rightarrow> LocalDomain \<Rightarrow> Fields \<Rightarrow> nat \<times> nat \<times> nat \<Rightarrow> real" where
  "next_v settings d f c =
     (case c of (x, y, z) \<Rightarrow>
        v f ! field_index d c
        + cfg_dt settings * (cfg_Dv settings * laplacian d x y z (v f)
                             + calcV settings (u f ! field_index d c) (v f ! field_index d c)))"

text \<open>
  \<open>calc\<close>: one sweep over the interior cells, which stores the new values in the next
  buffers, and then the swap of current and next.
\<close>

definition sweep :: "Settings \<Rightarrow> LocalDomain \<Rightarrow> Fields \<Rightarrow> real list \<times> real list" where
  "sweep settings d f =
     fold (\<lambda>c (a, b). (a[field_index d c := next_u settings d f c],
                        b[field_index d c := next_v settings d f c]))
       (interior_cells d) (u2 f, v2 f)"

definition calc :: "Settings \<Rightarrow> LocalDomain \<Rightarrow> Fields \<Rightarrow> Fields" where
  "calc settings d f =
     (case sweep settings d f of (a, b) \<Rightarrow> \<lparr>u = a, v = b, u2 = u f, v2 = v f\<rparr>)"

text \<open>A field state fits a domain when each of the four buffers has one value per cell.\<close>

definition fields_ok :: "LocalDomain \<Rightarrow> Fields \<Rightarrow> bool" where
  "fields_ok d f =
     (length (u f) = field_size d \<and> length (v f) = field_size d \<and>
      length (u2 f) = field_size d \<and> length (v2 f) = field_size d)"

text \<open>
  The scenario of the specification: a rank of \<open>4 \<times> 4 \<times> 4\<close> cells (one of the eight ranks of
  \<open>L = 8\<close> on a \<open>2 \<times> 2 \<times> 2\<close> grid), \<open>Du = Dv = 0.2\<close>, \<open>F = 0.04\<close>, \<open>k = 0.06\<close>, \<open>dt = 1\<close>, no
  noise, and the uniform baseline \<open>U = 1\<close>, \<open>V = 0\<close> in the current buffers.
\<close>

definition scenario_settings :: Settings where
  "scenario_settings =
     \<lparr>cfg_L = 8, cfg_Du = 2 / 10, cfg_Dv = 2 / 10, cfg_F = 4 / 100, cfg_k = 6 / 100,
      cfg_dt = 1, cfg_noise = 0, cfg_steps = 1, cfg_plotgap = 1,
      cfg_npx = 2, cfg_npy = 2, cfg_npz = 2\<rparr>"

definition scenario_domain :: LocalDomain where
  "scenario_domain =
     \<lparr>ld_size_x = 4, ld_size_y = 4, ld_size_z = 4,
      ld_offset_x = 4, ld_offset_y = 0, ld_offset_z = 4\<rparr>"

definition baseline :: "LocalDomain \<Rightarrow> Fields" where
  "baseline d =
     \<lparr>u = replicate (field_size d) 1, v = replicate (field_size d) 0,
      u2 = replicate (field_size d) 0, v2 = replicate (field_size d) 0\<rparr>"

section \<open>Checkpoint and restore\<close>

text \<open>
  Modelled from the spec: the Restart/Checkpoint Bridge of section 4.5 (\<open>data_noghost\<close> and
  \<open>restart\<close> are only declared in the header) and the selection-based arrays of the
  persistence collaborator (sections 3 and 6). The ghost-free buffer of a rank has
  \<open>size_x size_y size_z\<close> values, the interior cell \<open>(x, y, z)\<close> (counted from 0) at
  \<open>x + y * size_x + z * size_x * size_y\<close>. A persisted array maps the global coordinates
  that have been written to their values; a rank writes and reads the box
  \<open>offset .. offset + size\<close> of it. The functions do not compute with the values, so they
  are stated for any type of value.
\<close>

definition local_cells :: "LocalDomain \<Rightarrow> (nat \<times> nat \<times> nat) list" where
  "local_cells d =
     concat (map (\<lambda>z. concat (map (\<lambda>y. map (\<lambda>x. (x, y, z)) [0 ..< ld_size_x d])
       [0 ..< ld_size_y d])) [0 ..< ld_size_z d])"

definition noghost_index :: "LocalDomain \<Rightarrow> nat \<times> nat \<times> nat \<Rightarrow> nat" where
  "noghost_index d c =
     (case c of (x, y, z) \<Rightarrow> x + y * ld_size_x d + z * ld_size_x d * ld_size_y d)"

definition noghost_size :: "LocalDomain \<Rightarrow> nat" where
  "noghost_size d = ld_size_x d * ld_size_y d * ld_size_z d"

text \<open>The padded cell of an interior cell counted from 0: one further on each axis.\<close>

definition padded :: "nat \<times> nat \<times> nat \<Rightarrow> nat \<times> nat \<times> nat" where
  "padded c = (case c of (x, y, z) \<Rightarrow> (x + 1, y + 1, z + 1))"

definition global_cell :: "LocalDomain \<Rightarrow> nat \<times> nat \<times> nat \<Rightarrow> nat \<times> nat \<times> nat" where
  "global_cell d c =
     (case c of (x, y, z) \<Rightarrow> (ld_offset_x d + x, ld_offset_y d + y, ld_offset_z d + z))"

text \<open>\<open>data_noghost\<close>: a copy of the data with the ghosts removed.\<close>

definition data_noghost :: "LocalDomain \<Rightarrow> 'a::zero list \<Rightarrow> 'a list" where
  "data_noghost d data =
     write_cells (noghost_index d) (\<lambda>c. data ! field_index d (padded c)) (local_cells d)
       (replicate (noghost_size d) 0)"

type_synonym 'a GlobalArray = "nat \<times> nat \<times> nat \<rightharpoonup> 'a"

definition write_selection :: "LocalDomain \<Rightarrow> 'a list \<Rightarrow> 'a GlobalArray \<Rightarrow> 'a GlobalArray" where
  "write_selection d buf arr =
     fold (\<lambda>c m. m(global_cell d c \<mapsto> buf ! noghost_index d c)) (local_cells d) arr"

definition read_selection :: "LocalDomain \<Rightarrow> 'a::zero GlobalArray \<Rightarrow> error + 'a list" where
  "read_selection d arr =
     (if list_all (\<lambda>c. arr (global_cell d c) \<noteq> None) (local_cells d)
      then Inr (write_cells (noghost_index d) (\<lambda>c. the (arr (global_cell d c))) (local_cells d)
                  (replicate (noghost_size d) 0))
      else Inl PersistenceFailure)"

text \<open>A checkpoint record: the two named arrays \<open>u\<close> and \<open>v\<close> of one persisted step.\<close>

record 'a Checkpoint =
  array_u :: "'a GlobalArray"
  array_v :: "'a GlobalArray"

definition no_checkpoint :: "'a Checkpoint" where
  "no_checkpoint = \<lparr>array_u = Map.empty, array_v = Map.empty\<rparr>"

text \<open>
  \<open>checkpoint\<close>: one rank strips the ghosts of its \<open>U\<close> and \<open>V\<close> and writes them under its
  selection. \<open>restore\<close>: one rank reads its selection of both arrays and re-inserts the
  values into ghost-padded buffers whose ghost layers are zero.
\<close>

definition checkpoint ::
  "LocalDomain \<Rightarrow> 'a::zero list \<times> 'a list \<Rightarrow> 'a Checkpoint \<Rightarrow> 'a Checkpoint" where
  "checkpoint d UV cp =
     \<lparr>array_u = write_selection d (data_noghost d (fst UV)) (array_u cp),
      array_v = write_selection d (data_noghost d (snd UV)) (array_v cp)\<rparr>"

definition with_ghost :: "LocalDomain \<Rightarrow> 'a::zero list \<Rightarrow> 'a list" where
  "with_ghost d buf =
     write_cells (\<lambda>c. field_index d (padded c)) (\<lambda>c. buf ! noghost_index d c) (local_cells d)
       (replicate (field_size d) 0)"

definition restore :: "'a::zero Checkpoint \<Rightarrow> LocalDomain \<Rightarrow> error + 'a list \<times> 'a list" where
  "restore cp d =
     (case read_selection d (array_u cp) of
        Inl e \<Rightarrow> Inl e
      | Inr bu \<Rightarrow>
          (case read_selection d (array_v cp) of
             Inl e \<Rightarrow> Inl e
           | Inr bv \<Rightarrow> Inr (with_ghost d bu, with_ghost d bv)))"

text \<open>
  The ranks of a run, from the extents of each axis (as for \<open>rank_at\<close>): the rank at
  process coordinate \<open>(i, j, k)\<close> has the extents at these positions and the sums of the
  preceding extents as offsets. All ranks take part in a checkpoint, each with its fields.
\<close>

definition domain_at ::
  "nat list \<Rightarrow> nat list \<Rightarrow> nat list \<Rightarrow> nat \<times> nat \<times> nat \<Rightarrow> LocalDomain" where
  "domain_at xs ys zs c =
     (case c of (i, j, k) \<Rightarrow>
        \<lparr>ld_size_x = xs ! i, ld_size_y = ys ! j, ld_size_z = zs ! k,
         ld_offset_x = sum_list (take i xs), ld_offset_y = sum_list (take j ys),
         ld_offset_z = sum_list (take k zs)\<rparr>)"

definition covers :: "nat \<Rightarrow> nat list \<Rightarrow> nat list \<Rightarrow> nat list \<Rightarrow> bool" where
  "covers n xs ys zs = (sum_list xs = n \<and> sum_list ys = n \<and> sum_list zs = n)"

definition checkpoint_all ::
  "nat list \<Rightarrow> nat list \<Rightarrow> nat list \<Rightarrow> (nat \<times> nat \<times> nat \<Rightarrow> 'a::zero list \<times> 'a list)
     \<Rightarrow> 'a Checkpoint" where
  "checkpoint_all xs ys zs state =
     fold (\<lambda>r cp. checkpoint (domain_at xs ys zs r) (state r) cp)
       (process_grid xs ys zs) no_checkpoint"

definition fields_fit ::
  "nat list \<Rightarrow> nat list \<Rightarrow> nat list \<Rightarrow> (nat \<times> nat \<times> nat \<Rightarrow> 'a list \<times> 'a list) \<Rightarrow> bool" where
  "fields_fit xs ys zs state =
     list_all (\<lambda>r. length (fst (state r)) = field_size (domain_at xs ys zs r) \<and>
                   length (snd (state r)) = field_size (domain_at xs ys zs r))
       (process_grid xs ys zs)"

text \<open>
  A small run: a domain of edge 2 checkpointed by two ranks that split the x axis, each
  with fields whose values tell the rank and the cell apart, and restored by one rank.
\<close>

definition two_rank_state :: "nat \<times> nat \<times> nat \<Rightarrow> real list \<times> real list" where
  "two_rank_state r =
     (map (\<lambda>i. real (100 * fst r + i)) [0 ..< field_size (domain_at [1, 1] [2] [2] r)],
      map (\<lambda>i. - real (100 * fst r + i)) [0 ..< field_size (domain_at [1, 1] [2] [2] r)])"

section \<open>Index arithmetic of the padded box\<close>

subsection \<open>Mixed-radix arithmetic on integers\<close>

lemma mixed_radix_lt:
  fixes a b n m :: int
  assumes "a < n" "0 \<le> n" "0 \<le> b" "b < m"
  shows "a + b * n < n * m"
proof -
  have "a + b * n < (b + 1) * n"
    using assms(1) by (simp add: algebra_simps)
  also have "\<dots> \<le> m * n"
    using assms by (intro mult_right_mono) simp_all
  finally show ?thesis by (simp add: mult.commute)
qed

lemma flat_bounds:
  fixes x y z nx ny nz :: int
  assumes "0 \<le> x" "x < nx" "0 \<le> y" "y < ny" "0 \<le> z" "z < nz"
  shows "0 \<le> x + y * nx + z * nx * ny" and "x + y * nx + z * nx * ny < nx * ny * nz"
proof -
  have nx: "0 \<le> nx" and ny: "0 \<le> ny" using assms by simp_all
  show "0 \<le> x + y * nx + z * nx * ny"
    using assms nx ny by simp
  have row: "x + y * nx < nx * ny"
    using assms nx by (intro mixed_radix_lt) simp_all
  have "(x + y * nx) + z * (nx * ny) < (nx * ny) * nz"
    using row assms nx ny by (intro mixed_radix_lt) simp_all
  then show "x + y * nx + z * nx * ny < nx * ny * nz"
    by (simp add: mult.assoc)
qed

lemma flat_decode:
  fixes x y z nx ny :: int
  assumes "0 \<le> x" "x < nx" "0 \<le> y" "y < ny"
  shows "(x + y * nx + z * nx * ny) mod nx = x"
    and "((x + y * nx + z * nx * ny) div nx) mod ny = y"
    and "(x + y * nx + z * nx * ny) div (nx * ny) = z"
proof -
  have nx: "0 < nx" and ny: "0 < ny" using assms by simp_all
  have shape: "x + y * nx + z * nx * ny = x + nx * (y + z * ny)"
    by (simp add: algebra_simps)
  show "(x + y * nx + z * nx * ny) mod nx = x"
    using assms by (simp add: shape)
  have d: "(x + y * nx + z * nx * ny) div nx = y + z * ny"
    using assms nx by (simp add: shape)
  show "((x + y * nx + z * nx * ny) div nx) mod ny = y"
    using assms by (simp add: d)
  have "(x + y * nx + z * nx * ny) div (nx * ny) = ((x + y * nx + z * nx * ny) div nx) div ny"
    using ny by (simp add: zdiv_zmult2_eq)
  also have "\<dots> = z"
    using assms ny by (simp add: d)
  finally show "(x + y * nx + z * nx * ny) div (nx * ny) = z" .
qed

lemma flat_encode:
  fixes n nx ny :: int
  assumes "0 \<le> ny"
  shows "n mod nx + (n div nx) mod ny * nx + n div (nx * ny) * nx * ny = n"
proof -
  define r where "r = n div nx"
  have e: "n div (nx * ny) = r div ny"
    using assms by (simp add: zdiv_zmult2_eq r_def)
  have "r mod ny * nx + r div ny * nx * ny = (r mod ny + ny * (r div ny)) * nx"
    by (simp only: algebra_simps)
  also have "\<dots> = r * nx" by simp
  finally have "n mod nx + r mod ny * nx + r div ny * nx * ny = n mod nx + r * nx"
    by simp
  also have "\<dots> = n" by (simp add: r_def)
  finally show ?thesis by (simp only: e r_def)
qed

subsection \<open>From machine words to integers\<close>

lemma ucast_down_int: "(ucast (word_of_int k :: size_t) :: cint) = word_of_int k"
  by (simp add: ucast_down_wi is_down)

lemma l2i_word_of_int:
  "l2i gs x y z = word_of_int (sint x + sint y * (uint (size_x gs) + 2)
      + sint z * (uint (size_x gs) + 2) * (uint (size_y gs) + 2))"
proof -
  have "(scast x :: size_t) + scast y * (size_x gs + 2)
          + scast z * (size_x gs + 2) * (size_y gs + 2)
      = word_of_int (sint x + sint y * (uint (size_x gs) + 2)
          + sint z * (uint (size_x gs) + 2) * (uint (size_y gs) + 2))"
    by (simp only: scast_eq of_int_add of_int_mult of_int_numeral of_int_uint ucast_id)
  then show ?thesis
    unfolding l2i_def by (simp only: ucast_down_int)
qed

lemma sint_int32:
  "- (2 ^ 31) \<le> k \<Longrightarrow> k < 2 ^ 31 \<Longrightarrow> sint (word_of_int k :: cint) = k"
  by (simp add: sint_sbintrunc' signed_take_bit_int_eq_self)

lemma padded_dims_le_volume:
  shows "uint (size_x gs) + 2 \<le> padded_volume gs"
    and "uint (size_y gs) + 2 \<le> padded_volume gs"
    and "uint (size_z gs) + 2 \<le> padded_volume gs"
proof -
  define nx ny nz where "nx = uint (size_x gs) + 2" and "ny = uint (size_y gs) + 2"
    and "nz = uint (size_z gs) + 2"
  have pos: "1 \<le> nx" "1 \<le> ny" "1 \<le> nz"
    by (simp_all add: nx_def ny_def nz_def)
  have v: "padded_volume gs = nx * ny * nz"
    by (simp add: padded_volume_def nx_def ny_def nz_def)
  have xy: "1 \<le> nx * ny" "1 \<le> ny * nz" "1 \<le> nx * nz"
    using pos by (simp_all add: mult_le_cancel_left1 order_trans [OF _ mult_left_mono [of 1]] zero_less_mult_iff int_one_le_iff_zero_less)
  have "nx * 1 \<le> nx * (ny * nz)" using pos xy by (intro mult_left_mono) simp_all
  then show "uint (size_x gs) + 2 \<le> padded_volume gs"
    by (simp add: v nx_def [symmetric] mult.assoc)
  have "ny * 1 \<le> ny * (nx * nz)" using pos xy by (intro mult_left_mono) simp_all
  then show "uint (size_y gs) + 2 \<le> padded_volume gs"
    by (simp add: v ny_def [symmetric] mult.assoc mult.left_commute)
  have "nz * 1 \<le> nz * (nx * ny)" using pos xy by (intro mult_left_mono) simp_all
  then show "uint (size_z gs) + 2 \<le> padded_volume gs"
    by (simp add: v nz_def [symmetric] mult.commute)
qed

lemma l2i_in_box:
  assumes box: "in_padded_box gs x y z" and fits: "padded_volume gs \<le> 2 ^ 31"
  shows "sint (l2i gs x y z) = sint x + sint y * (uint (size_x gs) + 2)
           + sint z * (uint (size_x gs) + 2) * (uint (size_y gs) + 2)"
    and "0 \<le> sint (l2i gs x y z)"
    and "sint (l2i gs x y z) < padded_volume gs"
proof -
  define f where "f = sint x + sint y * (uint (size_x gs) + 2)
           + sint z * (uint (size_x gs) + 2) * (uint (size_y gs) + 2)"
  have lo: "0 \<le> f" and hi: "f < padded_volume gs"
    unfolding f_def padded_volume_def
    using box by (auto simp: in_padded_box_def intro!: flat_bounds)
  have "sint (l2i gs x y z) = sint (word_of_int f :: cint)"
    by (simp only: l2i_word_of_int f_def)
  also have "\<dots> = f"
    using lo hi fits by (intro sint_int32) simp_all
  finally have eq: "sint (l2i gs x y z) = f" .
  show "sint (l2i gs x y z) = sint x + sint y * (uint (size_x gs) + 2)
           + sint z * (uint (size_x gs) + 2) * (uint (size_y gs) + 2)"
    using eq by (simp only: f_def)
  show "0 \<le> sint (l2i gs x y z)" using eq lo by simp
  show "sint (l2i gs x y z) < padded_volume gs" using eq hi by simp
qed

lemma cell_of_l2i:
  assumes box: "in_padded_box gs x y z" and fits: "padded_volume gs \<le> 2 ^ 31"
  shows "cell_of gs (sint (l2i gs x y z)) = (sint x, sint y, sint z)"
  unfolding l2i_in_box(1) [OF box fits] cell_of_def
  using box by (simp add: in_padded_box_def flat_decode)

subsection \<open>Global coordinates inside a rank\<close>

lemma is_inside_iff:
  "is_inside gs x y z \<longleftrightarrow>
     (offset_x gs \<le> scast x \<and> (scast x :: size_t) < offset_x gs + size_x gs) \<and>
     (offset_y gs \<le> scast y \<and> (scast y :: size_t) < offset_y gs + size_y gs) \<and>
     (offset_z gs \<le> scast z \<and> (scast z :: size_t) < offset_z gs + size_z gs)"
  by (auto simp: is_inside_def not_less not_le)

lemma axis_local:
  fixes g :: size_t and off sz :: size_t
  assumes "off \<le> g" "g < off + sz"
  shows "uint (g - off) < uint sz"
proof -
  have "uint (g - off) = uint g - uint off"
    using assms(1) by (simp add: uint_sub_lem [symmetric] word_le_def)
  moreover have "uint g < uint (off + sz)"
    using assms(2) by (simp add: word_less_def)
  moreover have "uint (off + sz) \<le> uint off + uint sz"
    by (rule uint_add_le)
  ultimately show ?thesis by linarith
qed

lemma uint_scast_nonneg:
  fixes x :: cint
  assumes "0 \<le> sint x"
  shows "uint (scast x :: size_t) = sint x"
proof -
  have "sint x < 2 ^ 31" using sint_lt [of x] by simp
  moreover have "(2 :: int) ^ 31 < 2 ^ 64" by simp
  ultimately have "sint x < 2 ^ 64" by (rule less_trans)
  then have "uint (word_of_int (sint x) :: size_t) = sint x"
    using assms by (simp only: uint_word_of_int) (simp add: take_bit_int_eq_self)
  then show ?thesis by (simp only: scast_eq)
qed

lemma axis_local_nonneg:
  fixes g :: cint and off sz :: size_t
  assumes "off \<le> scast g" "(scast g :: size_t) < off + sz" "0 \<le> sint g"
  shows "1 \<le> sint g - uint off + 1" and "sint g - uint off + 1 \<le> uint sz"
proof -
  have e: "uint (scast g :: size_t) = sint g" using assms(3) by (rule uint_scast_nonneg)
  have "uint off \<le> sint g"
    using assms(1) by (simp only: word_le_def e)
  then show "1 \<le> sint g - uint off + 1" by simp
  have "sint g < uint (off + sz)"
    using assms(2) by (simp only: word_less_def e)
  moreover have "uint (off + sz) \<le> uint off + uint sz" by (rule uint_add_le)
  ultimately show "sint g - uint off + 1 \<le> uint sz" by linarith
qed

lemma local_coord:
  "(ucast (w :: size_t) :: cint) + 1 = word_of_int (uint w + 1)"
  by (simp only: ucast_eq of_int_add of_int_1)

lemma local_coord_shift:
  "(ucast ((scast g :: size_t) - off) :: cint) + 1 = word_of_int (sint g - uint off + 1)"
proof -
  have "(scast g :: size_t) - off = word_of_int (sint g - uint off)"
    by (simp only: scast_eq of_int_diff of_int_uint ucast_id)
  then have "(ucast ((scast g :: size_t) - off) :: cint) = word_of_int (sint g - uint off)"
    by (simp only: ucast_down_int)
  then show ?thesis by simp
qed

lemma g2i_local:
  "g2i gs gx gy gz =
     l2i gs (word_of_int (uint ((scast gx :: size_t) - offset_x gs) + 1))
            (word_of_int (uint ((scast gy :: size_t) - offset_y gs) + 1))
            (word_of_int (uint ((scast gz :: size_t) - offset_z gs) + 1))"
  unfolding g2i_def Let_def by (simp only: local_coord)

lemma local_in_box:
  fixes w sz :: size_t
  assumes "uint w < uint sz" "uint sz + 2 \<le> 2 ^ 31"
  shows "sint (word_of_int (uint w + 1) :: cint) = uint w + 1"
  using assms by (intro sint_int32) simp_all

lemma g2i_inside:
  assumes ins: "is_inside gs gx gy gz" and fits: "padded_volume gs \<le> 2 ^ 31"
  shows "0 \<le> sint (g2i gs gx gy gz)"
    and "sint (g2i gs gx gy gz) < padded_volume gs"
    and "cell_of gs (sint (g2i gs gx gy gz)) =
           (uint ((scast gx :: size_t) - offset_x gs) + 1,
            uint ((scast gy :: size_t) - offset_y gs) + 1,
            uint ((scast gz :: size_t) - offset_z gs) + 1)"
    and "interior_cell gs (cell_of gs (sint (g2i gs gx gy gz)))"
proof -
  define lx ly lz where "lx = uint ((scast gx :: size_t) - offset_x gs)"
    and "ly = uint ((scast gy :: size_t) - offset_y gs)"
    and "lz = uint ((scast gz :: size_t) - offset_z gs)"
  have bx: "lx < uint (size_x gs)" and by': "ly < uint (size_y gs)"
    and bz: "lz < uint (size_z gs)"
    using ins unfolding is_inside_iff lx_def ly_def lz_def
    by (auto intro: axis_local)
  have dims: "uint (size_x gs) + 2 \<le> 2 ^ 31" "uint (size_y gs) + 2 \<le> 2 ^ 31"
    "uint (size_z gs) + 2 \<le> 2 ^ 31"
    using padded_dims_le_volume [of gs] fits by linarith+
  have sx: "sint (word_of_int (lx + 1) :: cint) = lx + 1"
    unfolding lx_def using bx dims(1) unfolding lx_def by (rule local_in_box)
  have sy: "sint (word_of_int (ly + 1) :: cint) = ly + 1"
    unfolding ly_def using by' dims(2) unfolding ly_def by (rule local_in_box)
  have sz: "sint (word_of_int (lz + 1) :: cint) = lz + 1"
    unfolding lz_def using bz dims(3) unfolding lz_def by (rule local_in_box)
  have nonneg: "0 \<le> lx" "0 \<le> ly" "0 \<le> lz"
    by (simp_all add: lx_def ly_def lz_def)
  have box: "in_padded_box gs (word_of_int (lx + 1)) (word_of_int (ly + 1)) (word_of_int (lz + 1))"
    unfolding in_padded_box_def sx sy sz using bx by' bz nonneg by simp
  have g: "g2i gs gx gy gz = l2i gs (word_of_int (lx + 1)) (word_of_int (ly + 1)) (word_of_int (lz + 1))"
    unfolding lx_def ly_def lz_def by (rule g2i_local)
  show "0 \<le> sint (g2i gs gx gy gz)"
    unfolding g by (rule l2i_in_box(2) [OF box fits])
  show "sint (g2i gs gx gy gz) < padded_volume gs"
    unfolding g by (rule l2i_in_box(3) [OF box fits])
  have c: "cell_of gs (sint (g2i gs gx gy gz)) = (lx + 1, ly + 1, lz + 1)"
    unfolding g cell_of_l2i [OF box fits] sx sy sz ..
  then show "cell_of gs (sint (g2i gs gx gy gz)) =
           (uint ((scast gx :: size_t) - offset_x gs) + 1,
            uint ((scast gy :: size_t) - offset_y gs) + 1,
            uint ((scast gz :: size_t) - offset_z gs) + 1)"
    by (simp only: lx_def ly_def lz_def)
  show "interior_cell gs (cell_of gs (sint (g2i gs gx gy gz)))"
    unfolding c interior_cell_def using bx by' bz nonneg by simp
qed

subsection \<open>The index function covers the padded box exactly once\<close>

lemma div_less_of_less_mult:
  fixes n d m :: int
  assumes "0 < d" "n < d * m"
  shows "n div d < m"
proof -
  have "d * (n div d) = n - n mod d"
    by (simp only: minus_mod_eq_mult_div)
  moreover have "0 \<le> n mod d"
    using assms(1) by simp
  ultimately have "d * (n div d) < d * m" using assms(2) by linarith
  then show ?thesis using assms(1) by (simp add: mult_less_cancel_left_pos)
qed

lemma cell_of_in_box:
  assumes n: "0 \<le> n" "n < padded_volume gs"
  shows "0 \<le> fst (cell_of gs n)" "fst (cell_of gs n) < uint (size_x gs) + 2"
    and "0 \<le> fst (snd (cell_of gs n))" "fst (snd (cell_of gs n)) < uint (size_y gs) + 2"
    and "0 \<le> snd (snd (cell_of gs n))" "snd (snd (cell_of gs n)) < uint (size_z gs) + 2"
proof -
  have nx: "0 < uint (size_x gs) + 2" and ny: "0 < uint (size_y gs) + 2"
    using uint_ge_0 [of "size_x gs"] uint_ge_0 [of "size_y gs"] by linarith+
  then have nxy: "0 < (uint (size_x gs) + 2) * (uint (size_y gs) + 2)"
    by (simp only: zero_less_mult_iff) simp
  show "0 \<le> fst (cell_of gs n)" "fst (cell_of gs n) < uint (size_x gs) + 2"
    using nx by (simp_all add: cell_of_def)
  show "0 \<le> fst (snd (cell_of gs n))" "fst (snd (cell_of gs n)) < uint (size_y gs) + 2"
    using ny by (simp_all add: cell_of_def)
  show "0 \<le> snd (snd (cell_of gs n))"
    using n(1) nxy by (simp add: cell_of_def pos_imp_zdiv_nonneg_iff)
  show "snd (snd (cell_of gs n)) < uint (size_z gs) + 2"
    using n(2) nxy unfolding cell_of_def padded_volume_def snd_conv
    by (rule div_less_of_less_mult [rotated])
qed

lemma l2i_bij:
  assumes fits: "padded_volume gs \<le> 2 ^ 31"
  shows "bij_betw (\<lambda>(x, y, z). sint (l2i gs x y z))
           {(x, y, z). in_padded_box gs x y z} {0 ..< padded_volume gs}"
proof (rule bij_betwI')
  fix p q :: "cint \<times> cint \<times> cint"
  assume p: "p \<in> {(x, y, z). in_padded_box gs x y z}"
    and q: "q \<in> {(x, y, z). in_padded_box gs x y z}"
  obtain x y z where pe: "p = (x, y, z)" by (cases p)
  obtain x' y' z' where qe: "q = (x', y', z')" by (cases q)
  have bp: "in_padded_box gs x y z" and bq: "in_padded_box gs x' y' z'"
    using p q by (simp_all add: pe qe)
  have "x = x' \<and> y = y' \<and> z = z'" if "sint (l2i gs x y z) = sint (l2i gs x' y' z')"
  proof -
    have "cell_of gs (sint (l2i gs x y z)) = cell_of gs (sint (l2i gs x' y' z'))"
      using that by simp
    then have "(sint x, sint y, sint z) = (sint x', sint y', sint z')"
      by (simp only: cell_of_l2i [OF bp fits] cell_of_l2i [OF bq fits])
    then have "sint x = sint x'" "sint y = sint y'" "sint z = sint z'"
      by simp_all
    then show ?thesis by (blast intro: signed_word_eqI)
  qed
  then show "((case p of (x, y, z) \<Rightarrow> sint (l2i gs x y z))
        = (case q of (x, y, z) \<Rightarrow> sint (l2i gs x y z))) = (p = q)"
    by (auto simp: pe qe)
next
  fix p :: "cint \<times> cint \<times> cint"
  assume p: "p \<in> {(x, y, z). in_padded_box gs x y z}"
  obtain x y z where pe: "p = (x, y, z)" by (cases p)
  have bp: "in_padded_box gs x y z" using p by (simp add: pe)
  show "(case p of (x, y, z) \<Rightarrow> sint (l2i gs x y z)) \<in> {0 ..< padded_volume gs}"
    using l2i_in_box(2,3) [OF bp fits] by (simp add: pe)
next
  fix n :: int
  assume n: "n \<in> {0 ..< padded_volume gs}"
  then have n0: "0 \<le> n" and nV: "n < padded_volume gs" by simp_all
  obtain a b c where abc: "cell_of gs n = (a, b, c)" by (cases "cell_of gs n")
  have dims: "uint (size_x gs) + 2 \<le> 2 ^ 31" "uint (size_y gs) + 2 \<le> 2 ^ 31"
    "uint (size_z gs) + 2 \<le> 2 ^ 31"
    using padded_dims_le_volume [of gs] fits by linarith+
  have r: "0 \<le> a" "a < uint (size_x gs) + 2" "0 \<le> b" "b < uint (size_y gs) + 2"
    "0 \<le> c" "c < uint (size_z gs) + 2"
    using cell_of_in_box [OF n0 nV] by (simp_all add: abc)
  have sa: "sint (word_of_int a :: cint) = a" using r dims by (intro sint_int32) simp_all
  have sb: "sint (word_of_int b :: cint) = b" using r dims by (intro sint_int32) simp_all
  have sc: "sint (word_of_int c :: cint) = c" using r dims by (intro sint_int32) simp_all
  have box: "in_padded_box gs (word_of_int a) (word_of_int b) (word_of_int c)"
    unfolding in_padded_box_def sa sb sc using r by simp
  have "sint (l2i gs (word_of_int a) (word_of_int b) (word_of_int c))
      = a + b * (uint (size_x gs) + 2) + c * (uint (size_x gs) + 2) * (uint (size_y gs) + 2)"
    unfolding l2i_in_box(1) [OF box fits] sa sb sc ..
  also have "\<dots> = n"
    using abc flat_encode [of "uint (size_y gs) + 2" n "uint (size_x gs) + 2"]
    by (simp add: cell_of_def)
  finally have "n = (case (word_of_int a :: cint, word_of_int b :: cint, word_of_int c :: cint)
      of (x, y, z) \<Rightarrow> sint (l2i gs x y z))"
    by simp
  moreover have "(word_of_int a :: cint, word_of_int b :: cint, word_of_int c :: cint)
      \<in> {(x, y, z). in_padded_box gs x y z}"
    using box by simp
  ultimately show "\<exists>p \<in> {(x, y, z). in_padded_box gs x y z}.
      n = (case p of (x, y, z) \<Rightarrow> sint (l2i gs x y z))"
    by blast
qed

section \<open>Claims about the index functions\<close>

text \<open>
  Claim C1 (as amended). For every rank whose padded box holds at most \<open>2 ^ 31\<close> cells, and
  every local coordinate \<open>(x, y, z)\<close> of the padded box, the \<open>int\<close> that \<open>l2i\<close> returns is
  \<open>x + y * (size_x + 2) + z * (size_x + 2) * (size_y + 2)\<close>. The bound is needed because the
  sum is formed in \<open>size_t\<close> and returned through \<open>int\<close>.
\<close>

theorem l2i_formula:
  assumes "in_padded_box gs x y z" and "padded_volume gs \<le> 2 ^ 31"
  shows "sint (l2i gs x y z) =
           sint x + sint y * (uint (size_x gs) + 2)
             + sint z * (uint (size_x gs) + 2) * (uint (size_y gs) + 2)"
  using assms by (rule l2i_in_box(1))

theorem l2i_formula_witness:
  "in_padded_box (single_rank 2) 3 2 1 \<and> padded_volume (single_rank 2) \<le> 2 ^ 31 \<and>
   sint (l2i (single_rank 2) 3 2 1) = 3 + 2 * 4 + 1 * 4 * 4"
proof -
  have b: "in_padded_box (single_rank 2) 3 2 1"
    by (simp add: in_padded_box_def single_rank_def)
  have f: "padded_volume (single_rank 2) \<le> 2 ^ 31"
    by (simp add: padded_volume_def single_rank_def)
  show ?thesis
    using b f l2i_formula [OF b f] by (simp add: single_rank_def)
qed

text \<open>
  Claim C1 as stated fails on a single rank of edge 1290: the padded box has \<open>1292 ^ 3\<close>
  cells, more than \<open>2 ^ 31\<close>, and at its last cell \<open>(1291, 1291, 1291)\<close> the formula gives
  2156689087 while \<open>l2i\<close> returns a negative \<open>int\<close>.
\<close>

theorem l2i_formula_counterexample:
  "in_padded_box (single_rank 1290) 1291 1291 1291 \<and>
   sint (l2i (single_rank 1290) 1291 1291 1291) = - 2138278209 \<and>
   sint (1291 :: cint) + sint (1291 :: cint) * (uint (size_x (single_rank 1290)) + 2)
     + sint (1291 :: cint) * (uint (size_x (single_rank 1290)) + 2)
         * (uint (size_y (single_rank 1290)) + 2) = 2156689087"
  by (simp add: in_padded_box_def l2i_def single_rank_def)

text \<open>
  Claim C2. For every rank and every global coordinate \<open>(gx, gy, gz)\<close> that \<open>is_inside\<close>
  accepts, \<open>g2i\<close> is \<open>l2i\<close> at the local coordinate \<open>(gx - offset_x + 1, gy - offset_y + 1,
  gz - offset_z + 1)\<close>: the translation from global to local adds exactly one per axis for
  the ghost layer. For a global coordinate that is not negative, this local coordinate
  lies in \<open>1 .. size\<close>, the interior range of the axis.
\<close>

theorem g2i_adds_ghost_offset:
  assumes "is_inside gs gx gy gz"
  shows "g2i gs gx gy gz =
           l2i gs (word_of_int (sint gx - uint (offset_x gs) + 1))
                  (word_of_int (sint gy - uint (offset_y gs) + 1))
                  (word_of_int (sint gz - uint (offset_z gs) + 1))
       \<and> (0 \<le> sint gx \<longrightarrow>
            1 \<le> sint gx - uint (offset_x gs) + 1 \<and>
            sint gx - uint (offset_x gs) + 1 \<le> uint (size_x gs))
       \<and> (0 \<le> sint gy \<longrightarrow>
            1 \<le> sint gy - uint (offset_y gs) + 1 \<and>
            sint gy - uint (offset_y gs) + 1 \<le> uint (size_y gs))
       \<and> (0 \<le> sint gz \<longrightarrow>
            1 \<le> sint gz - uint (offset_z gs) + 1 \<and>
            sint gz - uint (offset_z gs) + 1 \<le> uint (size_z gs))"
proof -
  have "g2i gs gx gy gz =
           l2i gs (word_of_int (sint gx - uint (offset_x gs) + 1))
                  (word_of_int (sint gy - uint (offset_y gs) + 1))
                  (word_of_int (sint gz - uint (offset_z gs) + 1))"
    unfolding g2i_def Let_def by (simp only: local_coord_shift)
  moreover note axes = assms [unfolded is_inside_iff]
  have "0 \<le> sint gx \<longrightarrow>
            1 \<le> sint gx - uint (offset_x gs) + 1 \<and>
            sint gx - uint (offset_x gs) + 1 \<le> uint (size_x gs)"
    using axes axis_local_nonneg [of "offset_x gs" gx "size_x gs"] by blast
  moreover have "0 \<le> sint gy \<longrightarrow>
            1 \<le> sint gy - uint (offset_y gs) + 1 \<and>
            sint gy - uint (offset_y gs) + 1 \<le> uint (size_y gs)"
    using axes axis_local_nonneg [of "offset_y gs" gy "size_y gs"] by blast
  moreover have "0 \<le> sint gz \<longrightarrow>
            1 \<le> sint gz - uint (offset_z gs) + 1 \<and>
            sint gz - uint (offset_z gs) + 1 \<le> uint (size_z gs)"
    using axes axis_local_nonneg [of "offset_z gs" gz "size_z gs"] by blast
  ultimately show ?thesis by (intro conjI)
qed

theorem g2i_adds_ghost_offset_witness:
  "is_inside (second_of_two_ranks 8) 5 1 2 \<and>
   g2i (second_of_two_ranks 8) 5 1 2 = l2i (second_of_two_ranks 8) 2 2 3"
proof -
  have h: "is_inside (second_of_two_ranks 8) 5 1 2"
    by (simp add: is_inside_def second_of_two_ranks_def word_le_nat_alt word_less_nat_alt)
  show ?thesis
    using h g2i_adds_ghost_offset [OF h, THEN conjunct1] by (simp add: second_of_two_ranks_def)
qed

text \<open>
  Claim C9 (as amended). For every rank whose padded box holds at most \<open>2 ^ 31\<close> cells and
  every global coordinate for which \<open>is_inside\<close> returns true, \<open>g2i\<close> is a flat index in
  \<open>[0, (size_x + 2) (size_y + 2) (size_z + 2))\<close> and addresses an interior cell of the padded
  buffer. (A rank for which \<open>is_inside\<close> accepts a coordinate has positive extents.)
\<close>

theorem g2i_in_bounds_interior:
  assumes "is_inside gs gx gy gz" and "padded_volume gs \<le> 2 ^ 31"
  shows "0 \<le> sint (g2i gs gx gy gz) \<and> sint (g2i gs gx gy gz) < padded_volume gs \<and>
         interior_cell gs (cell_of gs (sint (g2i gs gx gy gz)))"
  using g2i_inside(1,2,4) [OF assms] by simp

theorem g2i_in_bounds_interior_witness:
  "is_inside (second_of_two_ranks 8) 5 1 2 \<and> padded_volume (second_of_two_ranks 8) \<le> 2 ^ 31 \<and>
   0 \<le> sint (g2i (second_of_two_ranks 8) 5 1 2) \<and>
   sint (g2i (second_of_two_ranks 8) 5 1 2) < 600 \<and>
   interior_cell (second_of_two_ranks 8)
     (cell_of (second_of_two_ranks 8) (sint (g2i (second_of_two_ranks 8) 5 1 2)))"
proof -
  have h: "is_inside (second_of_two_ranks 8) 5 1 2"
    by (simp add: is_inside_def second_of_two_ranks_def word_le_nat_alt word_less_nat_alt)
  have f: "padded_volume (second_of_two_ranks 8) \<le> 2 ^ 31"
    by (simp add: padded_volume_def second_of_two_ranks_def)
  have v: "padded_volume (second_of_two_ranks 8) = 600"
    by (simp add: padded_volume_def second_of_two_ranks_def)
  show ?thesis
    using h f g2i_in_bounds_interior [OF h f] by (simp only: v)
qed

text \<open>
  Claim C9 as stated fails on a single rank of edge 1290 (positive extents): \<open>is_inside\<close>
  accepts the global cell \<open>(1289, 1289, 1289)\<close>, and \<open>g2i\<close> returns a negative index for it.
\<close>

theorem g2i_in_bounds_counterexample:
  "0 < size_x (single_rank 1290) \<and> 0 < size_y (single_rank 1290) \<and>
   0 < size_z (single_rank 1290) \<and>
   is_inside (single_rank 1290) 1289 1289 1289 \<and>
   sint (g2i (single_rank 1290) 1289 1289 1289) = - 2139948766"
  by (simp add: is_inside_def g2i_def l2i_def single_rank_def)

text \<open>
  Claim C10 (as amended). For every rank whose padded box holds at most \<open>2 ^ 31\<close> cells,
  \<open>l2i\<close> is a bijection from the padded coordinate box
  \<open>[0, size_x + 2) \<times> [0, size_y + 2) \<times> [0, size_z + 2)\<close> onto the flat index range
  \<open>[0, (size_x + 2) (size_y + 2) (size_z + 2))\<close>: no two cells of a field share storage.
\<close>

theorem l2i_bijection:
  assumes "padded_volume gs \<le> 2 ^ 31"
  shows "bij_betw (\<lambda>(x, y, z). sint (l2i gs x y z))
           {(x, y, z). in_padded_box gs x y z} {0 ..< padded_volume gs}"
  using assms by (rule l2i_bij)

theorem l2i_bijection_witness:
  "padded_volume (single_rank 2) \<le> 2 ^ 31 \<and>
   bij_betw (\<lambda>(x, y, z). sint (l2i (single_rank 2) x y z))
     {(x, y, z). in_padded_box (single_rank 2) x y z} {0 ..< 64}"
proof -
  have f: "padded_volume (single_rank 2) \<le> 2 ^ 31"
    by (simp add: padded_volume_def single_rank_def)
  have v: "padded_volume (single_rank 2) = 64"
    by (simp add: padded_volume_def single_rank_def)
  show ?thesis
    using f l2i_bijection [OF f] by (simp only: v)
qed

text \<open>
  Claim C10 as stated fails on a single rank of edge 1624, whose padded box has more than
  \<open>2 ^ 32\<close> cells: the distinct cells \<open>(0, 0, 0)\<close> and \<open>(490, 807, 1624)\<close> of the box get the
  same flat index.
\<close>

theorem l2i_bijection_counterexample:
  "in_padded_box (single_rank 1624) 0 0 0 \<and>
   in_padded_box (single_rank 1624) 490 807 1624 \<and>
   l2i (single_rank 1624) 0 0 0 = l2i (single_rank 1624) 490 807 1624"
  by (simp add: in_padded_box_def l2i_def single_rank_def)

section \<open>The interior regions partition the global domain\<close>

subsection \<open>Prefix sums of a list of extents\<close>

lemma prefix_sum_mono:
  fixes ns :: "nat list"
  assumes "i \<le> j"
  shows "sum_list (take i ns) \<le> sum_list (take j ns)"
proof -
  have "take j ns = take i ns @ take (j - i) (drop i ns)"
    using assms take_add [of i "j - i" ns] by simp
  then show ?thesis by simp
qed

lemma prefix_sum_Suc:
  fixes ns :: "nat list"
  assumes "i < length ns"
  shows "sum_list (take (Suc i) ns) = sum_list (take i ns) + ns ! i"
  using assms by (simp add: take_Suc_conv_app_nth)

lemma prefix_sum_le_total:
  fixes ns :: "nat list"
  shows "sum_list (take i ns) \<le> sum_list ns"
  using prefix_sum_mono [of i "max i (length ns)" ns] by simp

lemma owner_exists:
  fixes ns :: "nat list"
  assumes "c < sum_list ns"
  shows "\<exists>i < length ns. sum_list (take i ns) \<le> c \<and> c < sum_list (take i ns) + ns ! i"
  using assms
proof (induction ns arbitrary: c)
  case Nil
  then show ?case by simp
next
  case (Cons n ns)
  show ?case
  proof (cases "c < n")
    case True
    then have "0 < length (n # ns) \<and> sum_list (take 0 (n # ns)) \<le> c
        \<and> c < sum_list (take 0 (n # ns)) + (n # ns) ! 0"
      by simp
    then show ?thesis by blast
  next
    case False
    then have "c - n < sum_list ns" using Cons.prems by simp
    then obtain i where i: "i < length ns" "sum_list (take i ns) \<le> c - n"
      "c - n < sum_list (take i ns) + ns ! i"
      using Cons.IH by blast
    have "Suc i < length (n # ns) \<and> sum_list (take (Suc i) (n # ns)) \<le> c
        \<and> c < sum_list (take (Suc i) (n # ns)) + (n # ns) ! Suc i"
      using i False by simp linarith
    then show ?thesis by blast
  qed
qed

lemma owner_unique:
  fixes ns :: "nat list"
  assumes i: "i < length ns" "sum_list (take i ns) \<le> c" "c < sum_list (take i ns) + ns ! i"
    and j: "j < length ns" "sum_list (take j ns) \<le> c" "c < sum_list (take j ns) + ns ! j"
  shows "i = j"
proof (rule ccontr)
  assume "i \<noteq> j"
  then consider "i < j" | "j < i" by linarith
  then show False
  proof cases
    case 1
    then have "sum_list (take (Suc i) ns) \<le> sum_list (take j ns)"
      by (intro prefix_sum_mono) simp
    then show False using i j by (simp add: prefix_sum_Suc)
  next
    case 2
    then have "sum_list (take (Suc j) ns) \<le> sum_list (take i ns)"
      by (intro prefix_sum_mono) simp
    then show False using i j by (simp add: prefix_sum_Suc)
  qed
qed

subsection \<open>Offsets accumulated in \<open>size_t\<close>\<close>

lemma unat_sum_list:
  fixes es :: "size_t list"
  assumes "sum_list (map unat es) < 2 ^ 64"
  shows "unat (sum_list es) = sum_list (map unat es)"
  using assms
proof (induction es)
  case Nil
  then show ?case by simp
next
  case (Cons e es)
  then have "unat (sum_list es) = sum_list (map unat es)" by simp
  moreover have "unat e + sum_list (map unat es) < 2 ^ 64" using Cons.prems by simp
  ultimately have "unat (e + sum_list es) = unat e + unat (sum_list es)"
    by (simp add: unat_add_lem [THEN iffD1])
  then show ?case using \<open>unat (sum_list es) = sum_list (map unat es)\<close> by simp
qed

lemma unat_offset:
  fixes es :: "size_t list"
  assumes "sum_list (map unat es) = unat (L :: size_t)"
  shows "unat (sum_list (take i es)) = sum_list (take i (map unat es))"
proof -
  have "sum_list (take i (map unat es)) \<le> unat L"
    using prefix_sum_le_total [of i "map unat es"] assms by simp
  moreover have "unat L < 2 ^ 64" using unsigned_less [of L] by simp
  ultimately have "sum_list (map unat (take i es)) < 2 ^ 64"
    by (simp add: take_map)
  then show ?thesis by (simp add: unat_sum_list take_map)
qed

lemma unat_scast_nonneg:
  fixes x :: cint
  assumes "0 \<le> sint x"
  shows "unat (scast x :: size_t) = nat (sint x)"
  using uint_scast_nonneg [OF assms] by (simp only: unat_eq_nat_uint)

lemma axis_test:
  fixes es :: "size_t list" and x :: cint
  assumes total: "sum_list (map unat es) = unat (L :: size_t)" and i: "i < length es"
    and x: "0 \<le> sint x"
  shows "(sum_list (take i es) \<le> scast x \<and> (scast x :: size_t) < sum_list (take i es) + es ! i)
     \<longleftrightarrow> (sum_list (take i (map unat es)) \<le> nat (sint x)
          \<and> nat (sint x) < sum_list (take i (map unat es)) + map unat es ! i)"
proof -
  have off: "unat (sum_list (take i es)) = sum_list (take i (map unat es))"
    using total by (rule unat_offset)
  have "sum_list (take (Suc i) (map unat es)) \<le> unat L"
    using prefix_sum_le_total [of "Suc i" "map unat es"] total by simp
  then have "sum_list (take i (map unat es)) + unat (es ! i) \<le> unat L"
    using i by (simp add: prefix_sum_Suc)
  moreover have "unat L < 2 ^ 64" using unsigned_less [of L] by simp
  ultimately have "unat (sum_list (take i es)) + unat (es ! i) < 2 ^ LENGTH(64)"
    using off by simp
  then have up: "unat (sum_list (take i es) + es ! i) = sum_list (take i (map unat es)) + unat (es ! i)"
    using off by (simp only: unat_add_lem [THEN iffD1])
  show ?thesis
    using i by (simp add: word_le_nat_alt word_less_nat_alt off up unat_scast_nonneg [OF x])
qed

subsection \<open>Exactly one owner per axis, and per cell\<close>

lemma is_inside_axes:
  "is_inside gs x y z \<longleftrightarrow>
     axis_inside (offset_x gs) (size_x gs) x \<and> axis_inside (offset_y gs) (size_y gs) y \<and>
     axis_inside (offset_z gs) (size_z gs) z"
  by (simp add: is_inside_iff axis_inside_def)

lemma axis_owner:
  fixes es :: "size_t list" and x :: cint
  assumes total: "sum_list (map unat es) = unat (L :: size_t)"
    and x: "0 \<le> sint x" "sint x < uint L"
  shows "\<exists>!i. i < length es \<and> axis_inside (sum_list (take i es)) (es ! i) x"
proof -
  let ?ns = "map unat es"
  let ?c = "nat (sint x)"
  have t: "i < length es \<Longrightarrow> axis_inside (sum_list (take i es)) (es ! i) x \<longleftrightarrow>
      (sum_list (take i ?ns) \<le> ?c \<and> ?c < sum_list (take i ?ns) + ?ns ! i)" for i
    unfolding axis_inside_def using total _ x(1) by (rule axis_test)
  have "?c < sum_list ?ns"
    using x total by (simp add: nat_less_iff)
  then obtain i where i: "i < length ?ns" "sum_list (take i ?ns) \<le> ?c"
    "?c < sum_list (take i ?ns) + ?ns ! i"
    using owner_exists [of ?c ?ns] by blast
  show ?thesis
  proof (rule ex1I [of _ i])
    show "i < length es \<and> axis_inside (sum_list (take i es)) (es ! i) x"
      using i t [of i] by simp
  next
    fix j
    assume j: "j < length es \<and> axis_inside (sum_list (take j es)) (es ! j) x"
    then have "j < length ?ns" "sum_list (take j ?ns) \<le> ?c"
      "?c < sum_list (take j ?ns) + ?ns ! j"
      using t [of j] by simp_all
    then show "j = i" using i by (intro owner_unique [of j ?ns ?c i])
  qed
qed

lemma set_process_grid:
  "set (process_grid xs ys zs) = {(i, j, k). i < length xs \<and> j < length ys \<and> k < length zs}"
  by (force simp: process_grid_def)

lemma is_inside_rank_at:
  "is_inside (rank_at xs ys zs (i, j, k)) x y z \<longleftrightarrow>
     axis_inside (sum_list (take i xs)) (xs ! i) x \<and>
     axis_inside (sum_list (take j ys)) (ys ! j) y \<and>
     axis_inside (sum_list (take k zs)) (zs ! k) z"
  by (simp add: is_inside_axes rank_at_def)

lemma cell_owner:
  assumes v: "valid_decomposition L xs ys zs"
    and x: "0 \<le> sint x" "sint x < uint L"
    and y: "0 \<le> sint y" "sint y < uint L"
    and z: "0 \<le> sint z" "sint z < uint L"
  shows "\<exists>!c. c \<in> set (process_grid xs ys zs) \<and> is_inside (rank_at xs ys zs c) x y z"
proof -
  have tx: "sum_list (map unat xs) = unat L" and ty: "sum_list (map unat ys) = unat L"
    and tz: "sum_list (map unat zs) = unat L"
    using v by (simp_all add: valid_decomposition_def)
  obtain i where i: "i < length xs" "axis_inside (sum_list (take i xs)) (xs ! i) x"
    and ui: "\<And>i'. i' < length xs \<and> axis_inside (sum_list (take i' xs)) (xs ! i') x \<Longrightarrow> i' = i"
    using axis_owner [OF tx x] by (auto elim!: ex1E)
  obtain j where j: "j < length ys" "axis_inside (sum_list (take j ys)) (ys ! j) y"
    and uj: "\<And>j'. j' < length ys \<and> axis_inside (sum_list (take j' ys)) (ys ! j') y \<Longrightarrow> j' = j"
    using axis_owner [OF ty y] by (auto elim!: ex1E)
  obtain k where k: "k < length zs" "axis_inside (sum_list (take k zs)) (zs ! k) z"
    and uk: "\<And>k'. k' < length zs \<and> axis_inside (sum_list (take k' zs)) (zs ! k') z \<Longrightarrow> k' = k"
    using axis_owner [OF tz z] by (auto elim!: ex1E)
  show ?thesis
  proof (rule ex1I [of _ "(i, j, k)"])
    show "(i, j, k) \<in> set (process_grid xs ys zs) \<and> is_inside (rank_at xs ys zs (i, j, k)) x y z"
      using i j k by (simp add: set_process_grid is_inside_rank_at)
  next
    fix c
    assume c: "c \<in> set (process_grid xs ys zs) \<and> is_inside (rank_at xs ys zs c) x y z"
    obtain i' j' k' where ce: "c = (i', j', k')" by (cases c)
    have "i' = i" using c ui [of i'] by (simp add: ce set_process_grid is_inside_rank_at)
    moreover have "j' = j" using c uj [of j'] by (simp add: ce set_process_grid is_inside_rank_at)
    moreover have "k' = k" using c uk [of k'] by (simp add: ce set_process_grid is_inside_rank_at)
    ultimately show "c = (i, j, k)" by (simp add: ce)
  qed
qed

text \<open>
  Claim C3. For every valid decomposition (per-axis local extents that sum to \<open>L\<close>, offsets
  the prefix sums of the preceding extents) and every global cell coordinate in
  \<open>[0, L)\<close> on each axis, exactly one rank of the process grid has \<open>is_inside\<close> true for the
  cell: the interior regions cover the global domain with no overlap and no gap.
\<close>

theorem interiors_partition_domain:
  assumes "valid_decomposition L xs ys zs"
    and "0 \<le> sint x" "sint x < uint L"
    and "0 \<le> sint y" "sint y < uint L"
    and "0 \<le> sint z" "sint z < uint L"
  shows "\<exists>!c. c \<in> set (process_grid xs ys zs) \<and> is_inside (rank_at xs ys zs c) x y z"
  using assms by (rule cell_owner)

theorem interiors_partition_domain_witness:
  "valid_decomposition 8 halves halves halves \<and>
   (0 \<le> sint (5 :: cint) \<and> sint (5 :: cint) < uint (8 :: size_t)) \<and>
   (0 \<le> sint (1 :: cint) \<and> sint (1 :: cint) < uint (8 :: size_t)) \<and>
   (0 \<le> sint (2 :: cint) \<and> sint (2 :: cint) < uint (8 :: size_t)) \<and>
   (\<exists>!c. c \<in> set (process_grid halves halves halves) \<and>
      is_inside (rank_at halves halves halves c) 5 1 2)"
proof -
  have v: "valid_decomposition 8 halves halves halves"
    by (simp add: valid_decomposition_def halves_def)
  have x: "0 \<le> sint (5 :: cint)" "sint (5 :: cint) < uint (8 :: size_t)" by simp_all
  have y: "0 \<le> sint (1 :: cint)" "sint (1 :: cint) < uint (8 :: size_t)" by simp_all
  have z: "0 \<le> sint (2 :: cint)" "sint (2 :: cint) < uint (8 :: size_t)" by simp_all
  show ?thesis
    using v x y z interiors_partition_domain [OF v x y z] by blast
qed

section \<open>Balance of the local extents\<close>

lemma axis_extent_balance: "axis_extent L n p \<le> axis_extent L n q + 1"
  by (simp add: axis_extent_def)

lemma axis_extent_antimono: "p \<le> q \<Longrightarrow> axis_extent L n q \<le> axis_extent L n p"
  by (simp add: axis_extent_def)

lemma axis_offset_0: "axis_offset L n 0 = 0"
  by (simp add: axis_offset_def)

lemma axis_offset_Suc: "axis_offset L n (Suc p) = axis_offset L n p + axis_extent L n p"
  by (simp add: axis_offset_def)

lemma axis_offset_closed: "axis_offset L n p = p * (L div n) + min p (L mod n)"
proof (induction p)
  case 0
  then show ?case by (simp add: axis_offset_0)
next
  case (Suc p)
  have "min (Suc p) (L mod n) = min p (L mod n) + (if p < L mod n then 1 else 0)"
    by simp
  then show ?case
    by (simp only: axis_offset_Suc Suc.IH axis_extent_def) (simp add: algebra_simps)
qed

lemma axis_offset_total:
  assumes "0 < n"
  shows "axis_offset L n n = L"
proof -
  have "L mod n < n" using assms by simp
  then have "min n (L mod n) = L mod n" by simp
  then show ?thesis by (simp add: axis_offset_closed)
qed

lemma axis_extent_sum:
  assumes "0 < n"
  shows "sum_list (map (axis_extent L n) [0 ..< n]) = L"
  using axis_offset_total [OF assms] by (simp add: axis_offset_def)

lemma axis_last:
  assumes "Suc p = n"
  shows "axis_offset L n p + axis_extent L n p = L"
proof -
  have "0 < n" using assms by simp
  then have "axis_offset L n (Suc p) = L" using assms axis_offset_total by simp
  then show ?thesis by (simp add: axis_offset_Suc)
qed

lemma local_extents_Inr:
  assumes "local_extents L (cx, cy, cz) (nx, ny, nz) = Inr d"
  shows "ld_size_x d = axis_extent L nx cx" "ld_size_y d = axis_extent L ny cy"
    "ld_size_z d = axis_extent L nz cz"
    "ld_offset_x d = axis_offset L nx cx" "ld_offset_y d = axis_offset L ny cy"
    "ld_offset_z d = axis_offset L nz cz"
  using assms by (auto simp: local_extents_def split: if_splits)

lemma local_extents_facts:
  assumes d: "local_extents L (cx, cy, cz) (nx, ny, nz) = Inr d"
    and e: "local_extents L (cx', cy', cz') (nx, ny, nz) = Inr e"
  shows "ld_size_x d \<le> ld_size_x e + 1 \<and> ld_size_y d \<le> ld_size_y e + 1
           \<and> ld_size_z d \<le> ld_size_z e + 1"
    and "(cx \<le> cx' \<longrightarrow> ld_size_x e \<le> ld_size_x d) \<and> (cy \<le> cy' \<longrightarrow> ld_size_y e \<le> ld_size_y d)
           \<and> (cz \<le> cz' \<longrightarrow> ld_size_z e \<le> ld_size_z d)"
    and "ld_offset_x d = sum_list (map (axis_extent L nx) [0 ..< cx])
           \<and> ld_offset_y d = sum_list (map (axis_extent L ny) [0 ..< cy])
           \<and> ld_offset_z d = sum_list (map (axis_extent L nz) [0 ..< cz])"
    and "(cx = 0 \<longrightarrow> ld_offset_x d = 0) \<and> (cy = 0 \<longrightarrow> ld_offset_y d = 0)
           \<and> (cz = 0 \<longrightarrow> ld_offset_z d = 0)"
    and "(cx' = Suc cx \<longrightarrow> ld_offset_x e = ld_offset_x d + ld_size_x d)
           \<and> (cy' = Suc cy \<longrightarrow> ld_offset_y e = ld_offset_y d + ld_size_y d)
           \<and> (cz' = Suc cz \<longrightarrow> ld_offset_z e = ld_offset_z d + ld_size_z d)"
    and "(Suc cx = nx \<longrightarrow> ld_offset_x d + ld_size_x d = L)
           \<and> (Suc cy = ny \<longrightarrow> ld_offset_y d + ld_size_y d = L)
           \<and> (Suc cz = nz \<longrightarrow> ld_offset_z d + ld_size_z d = L)"
    and "map (axis_extent 10 3) [0, 1, 2] = [4, 3, 3]"
proof -
  note D = local_extents_Inr [OF d] and E = local_extents_Inr [OF e]
  show "ld_size_x d \<le> ld_size_x e + 1 \<and> ld_size_y d \<le> ld_size_y e + 1
           \<and> ld_size_z d \<le> ld_size_z e + 1"
    by (simp only: D E axis_extent_balance)
  show "(cx \<le> cx' \<longrightarrow> ld_size_x e \<le> ld_size_x d) \<and> (cy \<le> cy' \<longrightarrow> ld_size_y e \<le> ld_size_y d)
           \<and> (cz \<le> cz' \<longrightarrow> ld_size_z e \<le> ld_size_z d)"
    by (simp add: D E axis_extent_antimono)
  show "ld_offset_x d = sum_list (map (axis_extent L nx) [0 ..< cx])
           \<and> ld_offset_y d = sum_list (map (axis_extent L ny) [0 ..< cy])
           \<and> ld_offset_z d = sum_list (map (axis_extent L nz) [0 ..< cz])"
    by (simp only: D axis_offset_def)
  show "(cx = 0 \<longrightarrow> ld_offset_x d = 0) \<and> (cy = 0 \<longrightarrow> ld_offset_y d = 0)
           \<and> (cz = 0 \<longrightarrow> ld_offset_z d = 0)"
    by (simp add: D axis_offset_0)
  show "(cx' = Suc cx \<longrightarrow> ld_offset_x e = ld_offset_x d + ld_size_x d)
           \<and> (cy' = Suc cy \<longrightarrow> ld_offset_y e = ld_offset_y d + ld_size_y d)
           \<and> (cz' = Suc cz \<longrightarrow> ld_offset_z e = ld_offset_z d + ld_size_z d)"
    by (simp add: D E axis_offset_Suc)
  show "(Suc cx = nx \<longrightarrow> ld_offset_x d + ld_size_x d = L)
           \<and> (Suc cy = ny \<longrightarrow> ld_offset_y d + ld_size_y d = L)
           \<and> (Suc cz = nz \<longrightarrow> ld_offset_z d + ld_size_z d = L)"
    by (simp add: D axis_last)
  show "map (axis_extent 10 3) [0, 1, 2] = [4, 3, 3]"
    by (simp add: axis_extent_def)
qed

text \<open>
  Claim C7. Take two ranks \<open>c\<close> and \<open>c'\<close> of one process grid over a domain of edge \<open>L\<close>.
  Along every axis their extents differ by at most 1, and the rank with the lower process
  coordinate has the extent that is at least as large (the remainder cells go to the
  lowest coordinates; \<open>L = 10\<close> over 3 processes gives 4, 3, 3). The offset is 0 at process
  coordinate 0, the offset of the next coordinate is the offset plus the extent (so an
  offset is the sum of the extents of all lower coordinates), and at the last coordinate
  offset plus extent is \<open>L\<close>.
\<close>

theorem local_extents_balanced:
  assumes "local_extents L (cx, cy, cz) (nx, ny, nz) = Inr d"
    and "local_extents L (cx', cy', cz') (nx, ny, nz) = Inr e"
  shows "(ld_size_x d \<le> ld_size_x e + 1 \<and> ld_size_y d \<le> ld_size_y e + 1
           \<and> ld_size_z d \<le> ld_size_z e + 1)
    \<and> ((cx \<le> cx' \<longrightarrow> ld_size_x e \<le> ld_size_x d) \<and> (cy \<le> cy' \<longrightarrow> ld_size_y e \<le> ld_size_y d)
           \<and> (cz \<le> cz' \<longrightarrow> ld_size_z e \<le> ld_size_z d))
    \<and> (ld_offset_x d = sum_list (map (axis_extent L nx) [0 ..< cx])
           \<and> ld_offset_y d = sum_list (map (axis_extent L ny) [0 ..< cy])
           \<and> ld_offset_z d = sum_list (map (axis_extent L nz) [0 ..< cz]))
    \<and> ((cx = 0 \<longrightarrow> ld_offset_x d = 0) \<and> (cy = 0 \<longrightarrow> ld_offset_y d = 0)
           \<and> (cz = 0 \<longrightarrow> ld_offset_z d = 0))
    \<and> ((cx' = Suc cx \<longrightarrow> ld_offset_x e = ld_offset_x d + ld_size_x d)
           \<and> (cy' = Suc cy \<longrightarrow> ld_offset_y e = ld_offset_y d + ld_size_y d)
           \<and> (cz' = Suc cz \<longrightarrow> ld_offset_z e = ld_offset_z d + ld_size_z d))
    \<and> ((Suc cx = nx \<longrightarrow> ld_offset_x d + ld_size_x d = L)
           \<and> (Suc cy = ny \<longrightarrow> ld_offset_y d + ld_size_y d = L)
           \<and> (Suc cz = nz \<longrightarrow> ld_offset_z d + ld_size_z d = L))
    \<and> map (axis_extent 10 3) [0, 1, 2] = [4, 3, 3]"
  using local_extents_facts [OF assms] by blast

theorem local_extents_balanced_witness:
  "local_extents 10 (0, 0, 0) (3, 1, 1) =
     Inr \<lparr>ld_size_x = 4, ld_size_y = 10, ld_size_z = 10,
          ld_offset_x = 0, ld_offset_y = 0, ld_offset_z = 0\<rparr> \<and>
   local_extents 10 (1, 0, 0) (3, 1, 1) =
     Inr \<lparr>ld_size_x = 3, ld_size_y = 10, ld_size_z = 10,
          ld_offset_x = 4, ld_offset_y = 0, ld_offset_z = 0\<rparr> \<and>
   map (axis_extent 10 3) [0, 1, 2] = [4, 3, 3]"
proof -
  have d: "local_extents 10 (0, 0, 0) (3, 1, 1) =
     Inr \<lparr>ld_size_x = 4, ld_size_y = 10, ld_size_z = 10,
          ld_offset_x = 0, ld_offset_y = 0, ld_offset_z = 0\<rparr>"
    by (simp add: local_extents_def axis_extent_def axis_offset_def)
  have e: "local_extents 10 (1, 0, 0) (3, 1, 1) =
     Inr \<lparr>ld_size_x = 3, ld_size_y = 10, ld_size_z = 10,
          ld_offset_x = 4, ld_offset_y = 0, ld_offset_z = 0\<rparr>"
    by (simp add: local_extents_def axis_extent_def axis_offset_def)
  show ?thesis
    using d e local_extents_balanced [OF d e] by blast
qed

section \<open>Reading a persisted sequence to its end\<close>

lemma BPWrite_loop_ok:
  assumes "\<forall>k. sync_ok hip k" and "current w = None"
  shows "\<exists>w'. BPWrite_loop hip n step w buf = (0, w') \<and>
           length (steps w') = length (steps w) + n \<and>
           (\<forall>s \<in> set (steps w'). s \<in> set (steps w) \<or> holds_data (length buf) s)"
  using assms(2)
proof (induction n arbitrary: step w buf)
  case 0
  then show ?case by (simp add: close_def)
next
  case (Suc n)
  define w3 where "w3 = writer_end_step (put (writer_begin_step w) ''data'' buf)"
  have w3: "steps w3 = steps w @ [[''data'' \<mapsto> buf]]" "current w3 = None"
    by (simp_all add: w3_def writer_end_step_def put_def writer_begin_step_def)
  obtain w' where w': "BPWrite_loop hip n (Suc step) w3 (hip_increment buf 10) = (0, w')"
    "length (steps w') = length (steps w3) + n"
    "\<forall>s \<in> set (steps w'). s \<in> set (steps w3) \<or> holds_data (length (hip_increment buf 10)) s"
    using Suc.IH [OF w3(2)] by blast
  have "BPWrite_loop hip (Suc n) step w buf = (0, w')"
    using assms(1) w'(1) by (simp add: Let_def w3_def)
  moreover have "length (steps w') = length (steps w) + Suc n"
    using w'(2) w3(1) by simp
  moreover have "\<forall>s \<in> set (steps w'). s \<in> set (steps w) \<or> holds_data (length buf) s"
    using w'(3) w3(1) by (auto simp: holds_data_def hip_increment_def)
  ultimately show ?case by blast
qed

lemma BPRead_loop_ok:
  assumes mem: "\<forall>k. memcpy_ok hip k" and N: "2 \<le> N"
    and fit: "\<forall>s \<in> set (steps r). holds_data N s"
    and cur: "current r = None" "cursor r \<le> length (steps r)"
    and k: "k = length (steps r) - cursor r"
  shows "\<exists>r' out'. BPRead_loop hip N r step out = Inr (0, r', out') \<and>
           history r' = history r @ replicate k OK @ [EndOfStream] \<and>
           length out' = length out + k \<and>
           steps r' = steps r \<and> cursor r' = length (steps r) \<and> current r' = None"
  using fit cur k
proof (induction k arbitrary: r step out)
  case 0
  then have b: "begin_step r = (EndOfStream, r\<lparr>history := history r @ [EndOfStream]\<rparr>)"
    by (simp add: begin_step_def)
  have "BPRead_loop hip N r step out
      = Inr (0, close (r\<lparr>history := history r @ [EndOfStream]\<rparr>), out)"
    by (subst BPRead_loop.simps) (simp add: b)
  then show ?case using 0 by (simp add: close_def)
next
  case (Suc k)
  then have lt: "cursor r < length (steps r)" by simp
  define s where "s = steps r ! cursor r"
  define r1 where "r1 = r\<lparr>current := Some s, history := history r @ [OK]\<rparr>"
  define r2 where "r2 = end_step r1"
  have b: "begin_step r = (OK, r1)"
    using lt by (simp add: begin_step_def r1_def s_def)
  have "s \<in> set (steps r)" using lt by (simp add: s_def)
  then have "holds_data N s" using Suc.prems(1) by blast
  then obtain d where d: "s ''data'' = Some d" "N \<le> length d"
    by (auto simp: holds_data_def split: option.splits)
  have g: "get r1 ''data'' 0 N = Inr (take N d)"
    using d by (simp add: get_def r1_def)
  have r2: "steps r2 = steps r" "cursor r2 = Suc (cursor r)" "current r2 = None"
    "history r2 = history r @ [OK]"
    by (simp_all add: r2_def r1_def end_step_def)
  define line where "line = \<lparr>line_step = step, line_size = length (take N d),
      line_first = take N d ! 0, line_second = take N d ! 1,
      line_last = take N d ! (length (take N d) - 1)\<rparr>"
  have unfold: "BPRead_loop hip N r step out = BPRead_loop hip N r2 (step + 1) (out @ [line])"
    using mem N
    by (subst BPRead_loop.simps) (simp add: b g Let_def r2_def [symmetric] line_def)
  have "\<forall>s \<in> set (steps r2). holds_data N s" using Suc.prems(1) r2(1) by simp
  moreover have "cursor r2 \<le> length (steps r2)" using lt r2 by simp
  moreover have "k = length (steps r2) - cursor r2" using Suc.prems(4) r2 by simp
  ultimately obtain r' out' where
    res: "BPRead_loop hip N r2 (step + 1) (out @ [line]) = Inr (0, r', out')"
      "history r' = history r2 @ replicate k OK @ [EndOfStream]"
      "length out' = length (out @ [line]) + k"
      "steps r' = steps r2" "cursor r' = length (steps r2)" "current r' = None"
    using Suc.IH [of r2 "step + 1" "out @ [line]"] r2(3) by blast
  have "BPRead_loop hip N r step out = Inr (0, r', out')"
    using unfold res(1) by simp
  moreover have "history r' = history r @ replicate (Suc k) OK @ [EndOfStream]"
    using res(2) r2(4) by simp
  moreover have "length out' = length out + Suc k" using res(3) by simp
  moreover have "steps r' = steps r" "cursor r' = length (steps r)"
    using res(4,5) r2(1) by simp_all
  ultimately show ?case using res(6) by blast
qed

lemma read_past_end:
  assumes "current r = None" "cursor r = length (steps r)"
  shows "fst (begin_step r) = EndOfStream" and "get r name start count = Inl StepUnavailable"
  using assms by (simp_all add: begin_step_def get_def)

lemma write_then_read:
  assumes hip: "malloc_ok hip" "\<forall>k. sync_ok hip k" "\<forall>k. memcpy_ok hip k"
    and N: "2 \<le> N" and n: "0 \<le> sint nSteps"
  shows "\<exists>file r out.
           BPWrite hip N nSteps = (0, file) \<and> length file = nat (sint nSteps) \<and>
           BPRead hip file N = Inr (0, r, out) \<and>
           history r = replicate (nat (sint nSteps)) OK @ [EndOfStream] \<and>
           length out = nat (sint nSteps) \<and>
           fst (begin_step r) = EndOfStream \<and>
           get r ''data'' 0 N = Inl StepUnavailable"
proof -
  have cnt: "unat (scast nSteps :: size_t) = nat (sint nSteps)"
    using n by (rule unat_scast_nonneg)
  have cw: "current open_write = None" by (simp add: open_write_def)
  obtain w where w: "BPWrite_loop hip (nat (sint nSteps)) 0 open_write (hip_initialize N) = (0, w)"
    "length (steps w) = length (steps open_write) + nat (sint nSteps)"
    "\<forall>s \<in> set (steps w). s \<in> set (steps open_write) \<or> holds_data (length (hip_initialize N)) s"
    using BPWrite_loop_ok [OF hip(2) cw, of "nat (sint nSteps)" 0 "hip_initialize N"]
    by blast
  have wr: "BPWrite hip N nSteps = (0, steps w)"
    using hip w(1) by (simp add: BPWrite_def cnt)
  have len: "length (steps w) = nat (sint nSteps)"
    using w(2) by (simp add: open_write_def)
  have fit: "\<forall>s \<in> set (steps (open_read (steps w))). holds_data N s"
    using w(3) by (simp add: open_write_def open_read_def hip_initialize_def)
  have c1: "current (open_read (steps w)) = None"
    by (simp add: open_read_def)
  have c2: "cursor (open_read (steps w)) \<le> length (steps (open_read (steps w)))"
    by (simp add: open_read_def)
  have c3: "nat (sint nSteps)
      = length (steps (open_read (steps w))) - cursor (open_read (steps w))"
    using len by (simp add: open_read_def)
  obtain r out where r: "BPRead_loop hip N (open_read (steps w)) 0 [] = Inr (0, r, out)"
    "history r = history (open_read (steps w)) @ replicate (nat (sint nSteps)) OK @ [EndOfStream]"
    "length out = length ([] :: Line list) + nat (sint nSteps)"
    "steps r = steps (open_read (steps w))" "cursor r = length (steps (open_read (steps w)))"
    "current r = None"
    using BPRead_loop_ok [OF hip(3) N fit c1 c2 c3, of 0 "[]"]
    by blast
  have "BPRead hip (steps w) N = Inr (0, r, out)"
    using hip(1) r(1) by (simp add: BPRead_def)
  moreover have "history r = replicate (nat (sint nSteps)) OK @ [EndOfStream]"
    using r(2) by (simp add: open_read_def)
  moreover have "length out = nat (sint nSteps)" using r(3) by simp
  moreover have "cursor r = length (steps r)" using r(4,5) by simp
  then have "fst (begin_step r) = EndOfStream" "get r ''data'' 0 N = Inl StepUnavailable"
    using r(6) by (simp_all add: read_past_end)
  ultimately show ?thesis using wr len by blast
qed

text \<open>
  Claim C8. When every HIP call succeeds, \<open>BPWrite\<close> persists a sequence with exactly
  \<open>nSteps\<close> begin/end step brackets. Reading it with \<open>BPRead\<close> returns (the loop ends): the
  reader's \<open>begin_step\<close> answered \<open>OK\<close> exactly \<open>nSteps\<close> times and its \<open>(nSteps + 1)\<close>-th
  answer was that no further step exists, which ended the loop; one line was printed per
  step. Past the last persisted step \<open>begin_step\<close> keeps answering so, and a read fails with
  \<open>StepUnavailable\<close>.
\<close>

theorem read_stops_after_last_step:
  assumes "malloc_ok hip" "\<forall>k. sync_ok hip k" "\<forall>k. memcpy_ok hip k"
    and "2 \<le> N" and "0 \<le> sint nSteps"
  shows "\<exists>file r out.
           BPWrite hip N nSteps = (0, file) \<and> length file = nat (sint nSteps) \<and>
           BPRead hip file N = Inr (0, r, out) \<and>
           history r = replicate (nat (sint nSteps)) OK @ [EndOfStream] \<and>
           length out = nat (sint nSteps) \<and>
           fst (begin_step r) = EndOfStream \<and>
           get r ''data'' 0 N = Inl StepUnavailable"
  using assms by (rule write_then_read)

theorem read_stops_after_last_step_witness:
  "malloc_ok hip_all_ok \<and> (\<forall>k. sync_ok hip_all_ok k) \<and> (\<forall>k. memcpy_ok hip_all_ok k) \<and>
   (2 :: nat) \<le> 2 \<and> 0 \<le> sint (3 :: cint) \<and>
   (\<exists>file r out.
      BPWrite hip_all_ok 2 3 = (0, file) \<and> length file = 3 \<and>
      BPRead hip_all_ok file 2 = Inr (0, r, out) \<and>
      history r = [OK, OK, OK, EndOfStream] \<and>
      length out = 3 \<and>
      fst (begin_step r) = EndOfStream \<and>
      get r ''data'' 0 2 = Inl StepUnavailable)"
proof -
  have a: "malloc_ok hip_all_ok" "\<forall>k. sync_ok hip_all_ok k" "\<forall>k. memcpy_ok hip_all_ok k"
    by (simp_all add: hip_all_ok_def)
  have N: "(2 :: nat) \<le> 2" by simp
  have n: "0 \<le> sint (3 :: cint)" by simp
  have three: "nat (sint (3 :: cint)) = 3" by simp
  have rep: "replicate 3 OK = [OK, OK, OK]" by (simp add: numeral_3_eq_3)
  show ?thesis
    using a N n read_stops_after_last_step [OF a N n] by (simp only: three rep append.simps) simp
qed

section \<open>The padded field layout\<close>

lemma nat_mixed_radix_lt:
  fixes a b n m :: nat
  assumes "a < n" "b < m"
  shows "a + b * n < n * m"
proof -
  have "a + b * n < Suc b * n" using assms(1) by simp
  also have "\<dots> \<le> m * n" using assms(2) by (intro mult_le_mono1) simp
  finally show ?thesis by (simp add: mult.commute)
qed

lemma field_index_lt:
  assumes "in_field d c"
  shows "field_index d c < field_size d"
proof -
  obtain x y z where c: "c = (x, y, z)" by (cases c)
  define nx ny nz where "nx = ld_size_x d + 2" and "ny = ld_size_y d + 2"
    and "nz = ld_size_z d + 2"
  have b: "x < nx" "y < ny" "z < nz"
    using assms by (simp_all add: in_field_def c nx_def ny_def nz_def)
  have "x + y * nx < nx * ny"
    by (rule nat_mixed_radix_lt [OF b(1) b(2)])
  then have "(x + y * nx) + z * (nx * ny) < (nx * ny) * nz"
    by (rule nat_mixed_radix_lt [OF _ b(3)])
  moreover have "field_index d c = (x + y * nx) + z * (nx * ny)"
    by (simp only: field_index_def c prod.case nx_def ny_def mult.assoc)
  moreover have "field_size d = (nx * ny) * nz"
    by (simp only: field_size_def nx_def ny_def nz_def)
  ultimately show ?thesis by simp
qed

lemma field_index_decode:
  assumes "in_field d (x, y, z)"
  shows "field_index d (x, y, z) mod (ld_size_x d + 2) = x"
    and "(field_index d (x, y, z) div (ld_size_x d + 2)) mod (ld_size_y d + 2) = y"
    and "field_index d (x, y, z) div ((ld_size_x d + 2) * (ld_size_y d + 2)) = z"
proof -
  define nx ny where "nx = ld_size_x d + 2" and "ny = ld_size_y d + 2"
  have b: "x < nx" "y < ny" using assms by (simp_all add: in_field_def nx_def ny_def)
  have shape: "field_index d (x, y, z) = x + nx * (y + z * ny)"
    by (simp add: field_index_def nx_def ny_def algebra_simps)
  show "field_index d (x, y, z) mod (ld_size_x d + 2) = x"
    using b unfolding nx_def [symmetric] shape by simp
  have dv: "field_index d (x, y, z) div nx = y + z * ny"
    using b unfolding shape by simp
  show "(field_index d (x, y, z) div (ld_size_x d + 2)) mod (ld_size_y d + 2) = y"
    using b unfolding nx_def [symmetric] ny_def [symmetric] dv by simp
  have "field_index d (x, y, z) div (nx * ny) = (field_index d (x, y, z) div nx) div ny"
    by (simp add: div_mult2_eq)
  also have "\<dots> = z" using b unfolding dv by simp
  finally show "field_index d (x, y, z) div ((ld_size_x d + 2) * (ld_size_y d + 2)) = z"
    by (simp only: nx_def ny_def)
qed

lemma field_index_inj:
  assumes "in_field d c" "in_field d c'" "field_index d c = field_index d c'"
  shows "c = c'"
proof -
  obtain x y z where c: "c = (x, y, z)" by (cases c)
  obtain x' y' z' where c': "c' = (x', y', z')" by (cases c')
  note a = field_index_decode [OF assms(1) [unfolded c]]
    and b = field_index_decode [OF assms(2) [unfolded c']]
  have e: "field_index d (x, y, z) = field_index d (x', y', z')"
    using assms(3) by (simp only: c c')
  have "x = x'" using a(1) b(1) unfolding e by simp
  moreover have "y = y'" using a(2) b(2) unfolding e by simp
  moreover have "z = z'" using a(3) b(3) unfolding e by simp
  ultimately show ?thesis by (simp add: c c')
qed

lemma interior_in_field: "interior_coord d c \<Longrightarrow> in_field d c"
  by (auto simp: interior_coord_def in_field_def)

lemma set_interior_cells: "set (interior_cells d) = {c. interior_coord d c}"
  by (force simp: interior_cells_def interior_coord_def)

lemma field_index_inj_on_interior: "inj_on (field_index d) (set (interior_cells d))"
proof (rule inj_onI)
  fix c c'
  assume "c \<in> set (interior_cells d)" "c' \<in> set (interior_cells d)"
    and e: "field_index d c = field_index d c'"
  then have "in_field d c" "in_field d c'"
    by (simp_all add: set_interior_cells interior_in_field)
  then show "c = c'" using e by (rule field_index_inj)
qed

subsection \<open>Loops that write a buffer cell by cell\<close>

lemma length_write_cells [simp]: "length (write_cells idx val cs buf) = length buf"
  unfolding write_cells_def by (induction cs arbitrary: buf) simp_all

lemma write_cells_Cons:
  "write_cells idx val (c # cs) buf = write_cells idx val cs (buf[idx c := val c])"
  by (simp add: write_cells_def)

lemma write_cells_other:
  assumes "j \<notin> idx ` set cs"
  shows "write_cells idx val cs buf ! j = buf ! j"
  using assms
proof (induction cs arbitrary: buf)
  case Nil
  then show ?case by (simp add: write_cells_def)
next
  case (Cons c cs)
  then have "j \<noteq> idx c" "j \<notin> idx ` set cs" by auto
  then show ?case using Cons.IH by (simp add: write_cells_Cons)
qed

lemma write_cells_hit:
  assumes "inj_on idx (set cs)" "c \<in> set cs" "idx c < length buf"
  shows "write_cells idx val cs buf ! idx c = val c"
  using assms
proof (induction cs arbitrary: buf)
  case Nil
  then show ?case by simp
next
  case (Cons a cs)
  have inj: "inj_on idx (set cs)" using Cons.prems(1) by (simp add: inj_on_def)
  show ?case
  proof (cases "c \<in> set cs")
    case True
    then show ?thesis
      using Cons.IH [OF inj True, of "buf[idx a := val a]"] Cons.prems(3)
      by (simp add: write_cells_Cons)
  next
    case False
    then have ca: "c = a" using Cons.prems(2) by simp
    have "idx a \<notin> idx ` set cs"
      using Cons.prems(1) False ca by (auto simp: inj_on_def)
    then have "write_cells idx val cs (buf[idx a := val a]) ! idx a = buf[idx a := val a] ! idx a"
      by (rule write_cells_other)
    then show ?thesis using Cons.prems(3) by (simp add: write_cells_Cons ca)
  qed
qed

lemma fold_pair_write:
  "fold (\<lambda>c (a, b). (a[idx c := g c], b[idx c := h c])) cs (a0, b0)
     = (write_cells idx g cs a0, write_cells idx h cs b0)"
  by (induction cs arbitrary: a0 b0) (simp_all add: write_cells_def)

section \<open>One step of the stepper\<close>

lemma sweep_eq:
  "sweep settings d f =
     (write_cells (field_index d) (next_u settings d f) (interior_cells d) (u2 f),
      write_cells (field_index d) (next_v settings d f) (interior_cells d) (v2 f))"
  unfolding sweep_def by (rule fold_pair_write)

lemma calc_fields:
  shows "u (calc settings d f)
           = write_cells (field_index d) (next_u settings d f) (interior_cells d) (u2 f)"
    and "v (calc settings d f)
           = write_cells (field_index d) (next_v settings d f) (interior_cells d) (v2 f)"
    and "u2 (calc settings d f) = u f"
    and "v2 (calc settings d f) = v f"
  by (simp_all add: calc_def sweep_eq)

lemma calc_interior:
  assumes "length (u2 f) = field_size d" "length (v2 f) = field_size d"
    and "interior_coord d c"
  shows "u (calc settings d f) ! field_index d c = next_u settings d f c"
    and "v (calc settings d f) ! field_index d c = next_v settings d f c"
proof -
  have m: "c \<in> set (interior_cells d)" using assms(3) by (simp add: set_interior_cells)
  have lt: "field_index d c < field_size d"
    using assms(3) by (intro field_index_lt interior_in_field)
  show "u (calc settings d f) ! field_index d c = next_u settings d f c"
    unfolding calc_fields using field_index_inj_on_interior m lt assms(1)
    by (intro write_cells_hit) simp_all
  show "v (calc settings d f) ! field_index d c = next_v settings d f c"
    unfolding calc_fields using field_index_inj_on_interior m lt assms(2)
    by (intro write_cells_hit) simp_all
qed

lemma calc_ghost:
  assumes "\<forall>c. interior_coord d c \<longrightarrow> j \<noteq> field_index d c"
  shows "u (calc settings d f) ! j = u2 f ! j" and "v (calc settings d f) ! j = v2 f ! j"
proof -
  have "j \<notin> field_index d ` set (interior_cells d)"
    using assms by (auto simp: set_interior_cells)
  then show "u (calc settings d f) ! j = u2 f ! j" and "v (calc settings d f) ! j = v2 f ! j"
    unfolding calc_fields by (simp_all add: write_cells_other)
qed

lemma ghost_not_interior_index:
  assumes "ghost d g" "interior_coord d c"
  shows "field_index d g \<noteq> field_index d c"
proof
  assume "field_index d g = field_index d c"
  then have "g = c"
    using assms by (intro field_index_inj) (simp_all add: ghost_def interior_in_field)
  then show False using assms by (simp add: ghost_def)
qed

lemma neighbours_in_field:
  assumes "interior_coord d (x, y, z)"
  shows "in_field d (x - 1, y, z)" "in_field d (x + 1, y, z)"
    "in_field d (x, y - 1, z)" "in_field d (x, y + 1, z)"
    "in_field d (x, y, z - 1)" "in_field d (x, y, z + 1)" "in_field d (x, y, z)"
  using assms by (auto simp: interior_coord_def in_field_def)

lemma laplacian_uniform:
  assumes "interior_coord d (x, y, z)" and "\<forall>j < field_size d. s ! j = a"
  shows "laplacian d x y z s = 0"
proof -
  have "s ! field_index d c = a" if "in_field d c" for c
    using assms(2) field_index_lt [OF that] by simp
  then show ?thesis
    using neighbours_in_field [OF assms(1)] by (simp add: laplacian_def)
qed

lemma next_uniform:
  assumes "interior_coord d (x, y, z)"
    and "\<forall>j < field_size d. u f ! j = 1 \<and> v f ! j = 0"
  shows "next_u settings d f (x, y, z) = 1" and "next_v settings d f (x, y, z) = 0"
proof -
  have i: "field_index d (x, y, z) < field_size d"
    using assms(1) by (intro field_index_lt interior_in_field)
  have lu: "laplacian d x y z (u f) = 0"
    using assms by (intro laplacian_uniform [where a = 1]) simp_all
  have lv: "laplacian d x y z (v f) = 0"
    using assms by (intro laplacian_uniform [where a = 0]) simp_all
  show "next_u settings d f (x, y, z) = 1"
    using assms(2) i by (simp add: next_u_def lu calcU_def)
  show "next_v settings d f (x, y, z) = 0"
    using assms(2) i by (simp add: next_v_def lv calcV_def)
qed

lemma next_independent_of_next_buffers:
  "next_u settings d (f\<lparr>u2 := a, v2 := b\<rparr>) c = next_u settings d f c"
  "next_v settings d (f\<lparr>u2 := a, v2 := b\<rparr>) c = next_v settings d f c"
  by (simp_all add: next_u_def next_v_def split: prod.splits)

text \<open>
  Claim C4. At every interior cell one invocation of the stepper gives
  \<open>U' = U + dt (Du lap(U) + R_u)\<close> and \<open>V' = V + dt (Dv lap(V) + R_v)\<close>, with \<open>lap\<close> the 7-point
  Laplacian (centre weight \<open>-6\<close>, each face neighbour weight 1), \<open>R_u = - U V\<^sup>2 + F (1 - U)\<close>
  and \<open>R_v = U V\<^sup>2 - (F + k) V\<close>, every value on the right read from the current buffers.
  In particular, when \<open>U = 1\<close> and \<open>V = 0\<close> everywhere, every interior cell has \<open>U = 1\<close> and
  \<open>V = 0\<close> after the step.
\<close>

theorem calc_updates_interior:
  assumes "fields_ok d f" and "interior_coord d (x, y, z)"
  shows "u (calc settings d f) ! field_index d (x, y, z) =
           u f ! field_index d (x, y, z)
           + cfg_dt settings *
               (cfg_Du settings *
                  (u f ! field_index d (x - 1, y, z) + u f ! field_index d (x + 1, y, z)
                   + u f ! field_index d (x, y - 1, z) + u f ! field_index d (x, y + 1, z)
                   + u f ! field_index d (x, y, z - 1) + u f ! field_index d (x, y, z + 1)
                   - 6 * u f ! field_index d (x, y, z))
                + (- (u f ! field_index d (x, y, z)) * (v f ! field_index d (x, y, z))\<^sup>2
                   + cfg_F settings * (1 - u f ! field_index d (x, y, z))))
       \<and> v (calc settings d f) ! field_index d (x, y, z) =
           v f ! field_index d (x, y, z)
           + cfg_dt settings *
               (cfg_Dv settings *
                  (v f ! field_index d (x - 1, y, z) + v f ! field_index d (x + 1, y, z)
                   + v f ! field_index d (x, y - 1, z) + v f ! field_index d (x, y + 1, z)
                   + v f ! field_index d (x, y, z - 1) + v f ! field_index d (x, y, z + 1)
                   - 6 * v f ! field_index d (x, y, z))
                + (u f ! field_index d (x, y, z) * (v f ! field_index d (x, y, z))\<^sup>2
                   - (cfg_F settings + cfg_k settings) * v f ! field_index d (x, y, z)))
       \<and> ((\<forall>j < field_size d. u f ! j = 1 \<and> v f ! j = 0) \<longrightarrow>
            u (calc settings d f) ! field_index d (x, y, z) = 1 \<and>
            v (calc settings d f) ! field_index d (x, y, z) = 0)"
proof -
  have len: "length (u2 f) = field_size d" "length (v2 f) = field_size d"
    using assms(1) by (simp_all add: fields_ok_def)
  note new = calc_interior [OF len assms(2), of settings]
  have "u (calc settings d f) ! field_index d (x, y, z) = next_u settings d f (x, y, z)"
    by (rule new(1))
  then have a: "u (calc settings d f) ! field_index d (x, y, z) =
           u f ! field_index d (x, y, z)
           + cfg_dt settings *
               (cfg_Du settings *
                  (u f ! field_index d (x - 1, y, z) + u f ! field_index d (x + 1, y, z)
                   + u f ! field_index d (x, y - 1, z) + u f ! field_index d (x, y + 1, z)
                   + u f ! field_index d (x, y, z - 1) + u f ! field_index d (x, y, z + 1)
                   - 6 * u f ! field_index d (x, y, z))
                + (- (u f ! field_index d (x, y, z)) * (v f ! field_index d (x, y, z))\<^sup>2
                   + cfg_F settings * (1 - u f ! field_index d (x, y, z))))"
    by (simp add: next_u_def laplacian_def calcU_def power2_eq_square)
  have "v (calc settings d f) ! field_index d (x, y, z) = next_v settings d f (x, y, z)"
    by (rule new(2))
  then have b: "v (calc settings d f) ! field_index d (x, y, z) =
           v f ! field_index d (x, y, z)
           + cfg_dt settings *
               (cfg_Dv settings *
                  (v f ! field_index d (x - 1, y, z) + v f ! field_index d (x + 1, y, z)
                   + v f ! field_index d (x, y - 1, z) + v f ! field_index d (x, y + 1, z)
                   + v f ! field_index d (x, y, z - 1) + v f ! field_index d (x, y, z + 1)
                   - 6 * v f ! field_index d (x, y, z))
                + (u f ! field_index d (x, y, z) * (v f ! field_index d (x, y, z))\<^sup>2
                   - (cfg_F settings + cfg_k settings) * v f ! field_index d (x, y, z)))"
    by (simp add: next_v_def laplacian_def calcV_def power2_eq_square)
  have c: "(\<forall>j < field_size d. u f ! j = 1 \<and> v f ! j = 0) \<longrightarrow>
            u (calc settings d f) ! field_index d (x, y, z) = 1 \<and>
            v (calc settings d f) ! field_index d (x, y, z) = 0"
    using next_uniform [OF assms(2), of f settings] by (simp only: new) blast
  show ?thesis using a b c by (intro conjI)
qed

theorem calc_updates_interior_witness:
  "fields_ok scenario_domain (baseline scenario_domain) \<and>
   interior_coord scenario_domain (1, 4, 2) \<and>
   u (calc scenario_settings scenario_domain (baseline scenario_domain))
       ! field_index scenario_domain (1, 4, 2) = 1 \<and>
   v (calc scenario_settings scenario_domain (baseline scenario_domain))
       ! field_index scenario_domain (1, 4, 2) = 0"
proof -
  have ok: "fields_ok scenario_domain (baseline scenario_domain)"
    by (simp add: fields_ok_def baseline_def)
  have i: "interior_coord scenario_domain (1, 4, 2)"
    by (simp add: interior_coord_def scenario_domain_def)
  have uni: "\<forall>j < field_size scenario_domain.
      u (baseline scenario_domain) ! j = 1 \<and> v (baseline scenario_domain) ! j = 0"
    by (simp add: baseline_def)
  show ?thesis
    using ok i uni calc_updates_interior [OF ok i, of scenario_settings] by blast
qed

text \<open>
  Claim C6. One invocation of the stepper writes interior cells of the next buffers and
  nothing else: every ghost cell of the buffers that hold \<open>U\<close> and \<open>V\<close> after the step has
  the content it had before, and the buffers that were current are not written at all
  (after the swap they are the next buffers, unchanged). No cell of the next buffers is
  read during the sweep: with any other content in the next buffers the step gives every
  interior cell the same value.
\<close>

theorem calc_frame:
  assumes "fields_ok d f" and "ghost d g"
  shows "u (calc settings d f) ! field_index d g = u2 f ! field_index d g
       \<and> v (calc settings d f) ! field_index d g = v2 f ! field_index d g
       \<and> u2 (calc settings d f) = u f \<and> v2 (calc settings d f) = v f
       \<and> fields_ok d (calc settings d f)
       \<and> (\<forall>a b c. length a = field_size d \<and> length b = field_size d \<and> interior_coord d c \<longrightarrow>
            u (calc settings d (f\<lparr>u2 := a, v2 := b\<rparr>)) ! field_index d c
              = u (calc settings d f) ! field_index d c
          \<and> v (calc settings d (f\<lparr>u2 := a, v2 := b\<rparr>)) ! field_index d c
              = v (calc settings d f) ! field_index d c)"
proof -
  have len: "length (u f) = field_size d" "length (v f) = field_size d"
    "length (u2 f) = field_size d" "length (v2 f) = field_size d"
    using assms(1) by (simp_all add: fields_ok_def)
  have away: "\<forall>c. interior_coord d c \<longrightarrow> field_index d g \<noteq> field_index d c"
    using ghost_not_interior_index [OF assms(2)] by blast
  have gu: "u (calc settings d f) ! field_index d g = u2 f ! field_index d g"
    and gv: "v (calc settings d f) ! field_index d g = v2 f ! field_index d g"
    using calc_ghost [OF away] by simp_all
  have sw: "u2 (calc settings d f) = u f" "v2 (calc settings d f) = v f"
    by (simp_all add: calc_fields)
  have ok: "fields_ok d (calc settings d f)"
    using len by (simp add: fields_ok_def calc_fields)
  have ind: "u (calc settings d (f\<lparr>u2 := a, v2 := b\<rparr>)) ! field_index d c
              = u (calc settings d f) ! field_index d c
          \<and> v (calc settings d (f\<lparr>u2 := a, v2 := b\<rparr>)) ! field_index d c
              = v (calc settings d f) ! field_index d c"
    if "length a = field_size d" "length b = field_size d" "interior_coord d c" for a b c
  proof -
    have "length (u2 (f\<lparr>u2 := a, v2 := b\<rparr>)) = field_size d"
      "length (v2 (f\<lparr>u2 := a, v2 := b\<rparr>)) = field_size d"
      using that by simp_all
    note other = calc_interior [OF this that(3), of settings]
    note this_one = calc_interior [OF len(3,4) that(3), of settings]
    show ?thesis
      by (simp only: other this_one next_independent_of_next_buffers)
  qed
  show ?thesis using gu gv sw ok ind by blast
qed

theorem calc_frame_witness:
  "fields_ok scenario_domain (baseline scenario_domain) \<and>
   ghost scenario_domain (0, 3, 5) \<and>
   u (calc scenario_settings scenario_domain (baseline scenario_domain))
       ! field_index scenario_domain (0, 3, 5) = 0 \<and>
   u2 (calc scenario_settings scenario_domain (baseline scenario_domain))
     = u (baseline scenario_domain)"
proof -
  have ok: "fields_ok scenario_domain (baseline scenario_domain)"
    by (simp add: fields_ok_def baseline_def)
  have g: "ghost scenario_domain (0, 3, 5)"
    by (simp add: ghost_def in_field_def interior_coord_def scenario_domain_def)
  have "field_index scenario_domain (0, 3, 5) < field_size scenario_domain"
    by (simp add: field_index_def field_size_def scenario_domain_def)
  then have z: "u2 (baseline scenario_domain) ! field_index scenario_domain (0, 3, 5) = 0"
    by (simp add: baseline_def)
  show ?thesis
    using ok g z calc_frame [OF ok g, of scenario_settings] by simp
qed

section \<open>Ghost-free buffers and selections\<close>

lemma set_local_cells:
  "set (local_cells d) = {(x, y, z). x < ld_size_x d \<and> y < ld_size_y d \<and> z < ld_size_z d}"
  by (force simp: local_cells_def)

lemma noghost_index_lt:
  assumes "c \<in> set (local_cells d)"
  shows "noghost_index d c < noghost_size d"
proof -
  obtain x y z where c: "c = (x, y, z)" by (cases c)
  have b: "x < ld_size_x d" "y < ld_size_y d" "z < ld_size_z d"
    using assms by (simp_all add: set_local_cells c)
  have "x + y * ld_size_x d < ld_size_x d * ld_size_y d"
    by (rule nat_mixed_radix_lt [OF b(1) b(2)])
  then have "(x + y * ld_size_x d) + z * (ld_size_x d * ld_size_y d)
      < (ld_size_x d * ld_size_y d) * ld_size_z d"
    by (rule nat_mixed_radix_lt [OF _ b(3)])
  moreover have "noghost_index d c = (x + y * ld_size_x d) + z * (ld_size_x d * ld_size_y d)"
    by (simp only: noghost_index_def c prod.case mult.assoc)
  ultimately show ?thesis by (simp only: noghost_size_def)
qed

lemma noghost_index_decode:
  assumes "(x, y, z) \<in> set (local_cells d)"
  shows "noghost_index d (x, y, z) mod ld_size_x d = x"
    and "(noghost_index d (x, y, z) div ld_size_x d) mod ld_size_y d = y"
    and "noghost_index d (x, y, z) div (ld_size_x d * ld_size_y d) = z"
proof -
  define nx ny where "nx = ld_size_x d" and "ny = ld_size_y d"
  have b: "x < nx" "y < ny" using assms by (simp_all add: set_local_cells nx_def ny_def)
  have shape: "noghost_index d (x, y, z) = x + nx * (y + z * ny)"
    by (simp add: noghost_index_def nx_def ny_def algebra_simps)
  show "noghost_index d (x, y, z) mod ld_size_x d = x"
    using b unfolding nx_def [symmetric] shape by simp
  have dv: "noghost_index d (x, y, z) div nx = y + z * ny"
    using b unfolding shape by simp
  show "(noghost_index d (x, y, z) div ld_size_x d) mod ld_size_y d = y"
    using b unfolding nx_def [symmetric] ny_def [symmetric] dv by simp
  have "noghost_index d (x, y, z) div (nx * ny) = (noghost_index d (x, y, z) div nx) div ny"
    by (simp add: div_mult2_eq)
  also have "\<dots> = z" using b unfolding dv by simp
  finally show "noghost_index d (x, y, z) div (ld_size_x d * ld_size_y d) = z"
    by (simp only: nx_def ny_def)
qed

lemma noghost_index_inj_on: "inj_on (noghost_index d) (set (local_cells d))"
proof (rule inj_onI)
  fix c c'
  assume m: "c \<in> set (local_cells d)" "c' \<in> set (local_cells d)"
    and e: "noghost_index d c = noghost_index d c'"
  obtain x y z where c: "c = (x, y, z)" by (cases c)
  obtain x' y' z' where c': "c' = (x', y', z')" by (cases c')
  note a = noghost_index_decode [OF m(1) [unfolded c]]
    and b = noghost_index_decode [OF m(2) [unfolded c']]
  have e': "noghost_index d (x, y, z) = noghost_index d (x', y', z')"
    using e by (simp only: c c')
  have "x = x'" using a(1) b(1) unfolding e' by simp
  moreover have "y = y'" using a(2) b(2) unfolding e' by simp
  moreover have "z = z'" using a(3) b(3) unfolding e' by simp
  ultimately show "c = c'" by (simp add: c c')
qed

lemma padded_interior: "c \<in> set (local_cells d) \<Longrightarrow> interior_coord d (padded c)"
  by (auto simp: set_local_cells interior_coord_def padded_def)

lemma interior_is_padded:
  assumes "interior_coord d g"
  shows "\<exists>c \<in> set (local_cells d). g = padded c"
proof -
  obtain x y z where g: "g = (x, y, z)" by (cases g)
  have "(x - 1, y - 1, z - 1) \<in> set (local_cells d)" "g = padded (x - 1, y - 1, z - 1)"
    using assms by (auto simp: g interior_coord_def set_local_cells padded_def)
  then show ?thesis by blast
qed

lemma padded_index_inj_on: "inj_on (\<lambda>c. field_index d (padded c)) (set (local_cells d))"
proof (rule inj_onI)
  fix c c'
  assume m: "c \<in> set (local_cells d)" "c' \<in> set (local_cells d)"
    and e: "field_index d (padded c) = field_index d (padded c')"
  have "padded c = padded c'"
    using m e by (intro field_index_inj [of d]) (simp_all add: padded_interior interior_in_field)
  then show "c = c'" by (auto simp: padded_def split: prod.splits)
qed

lemma data_noghost_nth:
  assumes "c \<in> set (local_cells d)"
  shows "data_noghost d data ! noghost_index d c = data ! field_index d (padded c)"
  unfolding data_noghost_def
  using noghost_index_inj_on assms noghost_index_lt [OF assms]
  by (intro write_cells_hit) simp_all

lemma with_ghost_length [simp]: "length (with_ghost d buf) = field_size d"
  by (simp add: with_ghost_def)

lemma with_ghost_interior:
  assumes "c \<in> set (local_cells d)"
  shows "with_ghost d buf ! field_index d (padded c) = buf ! noghost_index d c"
proof -
  have "field_index d (padded c) < field_size d"
    using assms by (intro field_index_lt interior_in_field padded_interior)
  then show ?thesis
    unfolding with_ghost_def using padded_index_inj_on assms
    by (intro write_cells_hit [where idx = "\<lambda>c. field_index d (padded c)"]) simp_all
qed

lemma with_ghost_ghost:
  assumes "ghost d g"
  shows "with_ghost d buf ! field_index d g = 0"
proof -
  have "field_index d g \<noteq> field_index d (padded c)" if "c \<in> set (local_cells d)" for c
    using ghost_not_interior_index [OF assms padded_interior [OF that]] .
  then have "field_index d g \<notin> (\<lambda>c. field_index d (padded c)) ` set (local_cells d)"
    by blast
  then have "with_ghost d buf ! field_index d g = replicate (field_size d) 0 ! field_index d g"
    unfolding with_ghost_def by (rule write_cells_other)
  moreover have "field_index d g < field_size d"
    using assms by (intro field_index_lt) (simp add: ghost_def)
  ultimately show ?thesis by simp
qed

subsection \<open>Writing and reading a selection of a persisted array\<close>

lemma fold_upd_other:
  assumes "g \<notin> key ` set cs"
  shows "fold (\<lambda>c m. m(key c \<mapsto> val c)) cs m0 g = m0 g"
  using assms by (induction cs arbitrary: m0) auto

lemma fold_upd_hit:
  assumes "inj_on key (set cs)" "c \<in> set cs"
  shows "fold (\<lambda>c m. m(key c \<mapsto> val c)) cs m0 (key c) = Some (val c)"
  using assms
proof (induction cs arbitrary: m0)
  case Nil
  then show ?case by simp
next
  case (Cons a cs)
  have inj: "inj_on key (set cs)" using Cons.prems(1) by (simp add: inj_on_def)
  show ?case
  proof (cases "c \<in> set cs")
    case True
    then show ?thesis
      using Cons.IH [OF inj True, of "m0(key a \<mapsto> val a)"]
      by (simp only: fold_simps comp_apply)
  next
    case False
    then have ca: "c = a" using Cons.prems(2) by simp
    have "key a \<notin> key ` set cs"
      using Cons.prems(1) False ca by (auto simp: inj_on_def)
    then have "fold (\<lambda>c m. m(key c \<mapsto> val c)) cs (m0(key a \<mapsto> val a)) (key a)
        = (m0(key a \<mapsto> val a)) (key a)"
      by (rule fold_upd_other)
    then have "fold (\<lambda>c m. m(key c \<mapsto> val c)) cs (m0(key a \<mapsto> val a)) (key a)
        = Some (val a)"
      by (simp only: fun_upd_same)
    then show ?thesis unfolding ca by (simp only: fold_simps comp_apply)
  qed
qed

lemma global_cell_inj: "inj (global_cell d)"
  by (rule injI) (auto simp: global_cell_def split: prod.splits)

lemma write_selection_hit:
  assumes "c \<in> set (local_cells d)"
  shows "write_selection d buf arr (global_cell d c) = Some (buf ! noghost_index d c)"
  unfolding write_selection_def
  using assms by (intro fold_upd_hit inj_on_subset [OF global_cell_inj]) simp_all

lemma write_selection_other:
  assumes "g \<notin> global_cell d ` set (local_cells d)"
  shows "write_selection d buf arr g = arr g"
  unfolding write_selection_def using assms by (rule fold_upd_other)

lemma read_selection_ok:
  assumes "\<forall>c \<in> set (local_cells d). arr (global_cell d c) \<noteq> None"
  shows "\<exists>b. read_selection d arr = Inr b \<and> length b = noghost_size d \<and>
           (\<forall>c \<in> set (local_cells d). b ! noghost_index d c = the (arr (global_cell d c)))"
proof -
  define b where "b = write_cells (noghost_index d) (\<lambda>c. the (arr (global_cell d c)))
      (local_cells d) (replicate (noghost_size d) (0 :: 'a))"
  have "read_selection d arr = Inr b"
    using assms by (simp add: read_selection_def list_all_iff b_def)
  moreover have "length b = noghost_size d" by (simp add: b_def)
  moreover have "b ! noghost_index d c = the (arr (global_cell d c))"
    if "c \<in> set (local_cells d)" for c
    unfolding b_def using noghost_index_inj_on that noghost_index_lt [OF that]
    by (intro write_cells_hit) simp_all
  ultimately show ?thesis by blast
qed

subsection \<open>The selections of a decomposition\<close>

lemma selection_iff:
  "(gx, gy, gz) \<in> global_cell d ` set (local_cells d) \<longleftrightarrow>
     (ld_offset_x d \<le> gx \<and> gx < ld_offset_x d + ld_size_x d) \<and>
     (ld_offset_y d \<le> gy \<and> gy < ld_offset_y d + ld_size_y d) \<and>
     (ld_offset_z d \<le> gz \<and> gz < ld_offset_z d + ld_size_z d)"
proof
  assume "(gx, gy, gz) \<in> global_cell d ` set (local_cells d)"
  then show "(ld_offset_x d \<le> gx \<and> gx < ld_offset_x d + ld_size_x d) \<and>
     (ld_offset_y d \<le> gy \<and> gy < ld_offset_y d + ld_size_y d) \<and>
     (ld_offset_z d \<le> gz \<and> gz < ld_offset_z d + ld_size_z d)"
    by (auto simp: set_local_cells global_cell_def)
next
  assume a: "(ld_offset_x d \<le> gx \<and> gx < ld_offset_x d + ld_size_x d) \<and>
     (ld_offset_y d \<le> gy \<and> gy < ld_offset_y d + ld_size_y d) \<and>
     (ld_offset_z d \<le> gz \<and> gz < ld_offset_z d + ld_size_z d)"
  define c where "c = (gx - ld_offset_x d, gy - ld_offset_y d, gz - ld_offset_z d)"
  have "c \<in> set (local_cells d)" using a by (auto simp: c_def set_local_cells)
  moreover have "global_cell d c = (gx, gy, gz)" using a by (simp add: c_def global_cell_def)
  ultimately show "(gx, gy, gz) \<in> global_cell d ` set (local_cells d)"
    by (metis imageI)
qed

lemma selection_domain_at:
  "(gx, gy, gz) \<in> global_cell (domain_at xs ys zs (i, j, k))
       ` set (local_cells (domain_at xs ys zs (i, j, k))) \<longleftrightarrow>
     (sum_list (take i xs) \<le> gx \<and> gx < sum_list (take i xs) + xs ! i) \<and>
     (sum_list (take j ys) \<le> gy \<and> gy < sum_list (take j ys) + ys ! j) \<and>
     (sum_list (take k zs) \<le> gz \<and> gz < sum_list (take k zs) + zs ! k)"
  by (simp only: selection_iff) (simp add: domain_at_def)

lemma selections_disjoint:
  assumes "r \<in> set (process_grid xs ys zs)" "r' \<in> set (process_grid xs ys zs)"
    and "g \<in> global_cell (domain_at xs ys zs r) ` set (local_cells (domain_at xs ys zs r))"
    and "g \<in> global_cell (domain_at xs ys zs r') ` set (local_cells (domain_at xs ys zs r'))"
  shows "r = r'"
proof -
  obtain i j k where r: "r = (i, j, k)" by (cases r)
  obtain i' j' k' where r': "r' = (i', j', k')" by (cases r')
  obtain gx gy gz where g: "g = (gx, gy, gz)" by (cases g)
  have b: "i < length xs" "j < length ys" "k < length zs"
    "i' < length xs" "j' < length ys" "k' < length zs"
    using assms(1,2) by (simp_all add: set_process_grid r r')
  note a = assms(3) [unfolded r g selection_domain_at]
    and a' = assms(4) [unfolded r' g selection_domain_at]
  have "i = i'" using b a a' by (intro owner_unique [of i xs gx i']) simp_all
  moreover have "j = j'" using b a a' by (intro owner_unique [of j ys gy j']) simp_all
  moreover have "k = k'" using b a a' by (intro owner_unique [of k zs gz k']) simp_all
  ultimately show ?thesis by (simp add: r r')
qed

lemma selections_cover:
  assumes "covers n xs ys zs" "gx < n" "gy < n" "gz < n"
  shows "\<exists>r \<in> set (process_grid xs ys zs).
           (gx, gy, gz) \<in> global_cell (domain_at xs ys zs r)
               ` set (local_cells (domain_at xs ys zs r))"
proof -
  have t: "sum_list xs = n" "sum_list ys = n" "sum_list zs = n"
    using assms(1) by (simp_all add: covers_def)
  obtain i where i: "i < length xs" "sum_list (take i xs) \<le> gx"
    "gx < sum_list (take i xs) + xs ! i"
    using owner_exists [of gx xs] assms(2) t(1) by auto
  obtain j where j: "j < length ys" "sum_list (take j ys) \<le> gy"
    "gy < sum_list (take j ys) + ys ! j"
    using owner_exists [of gy ys] assms(3) t(2) by auto
  obtain k where k: "k < length zs" "sum_list (take k zs) \<le> gz"
    "gz < sum_list (take k zs) + zs ! k"
    using owner_exists [of gz zs] assms(4) t(3) by auto
  have "(i, j, k) \<in> set (process_grid xs ys zs)"
    using i j k by (simp add: set_process_grid)
  moreover have "(gx, gy, gz) \<in> global_cell (domain_at xs ys zs (i, j, k))
      ` set (local_cells (domain_at xs ys zs (i, j, k)))"
    unfolding selection_domain_at using i j k by simp
  ultimately show ?thesis by blast
qed

lemma axis_within:
  fixes ns :: "nat list"
  assumes "i < length ns" "x < ns ! i"
  shows "sum_list (take i ns) + x < sum_list ns"
proof -
  have "sum_list (take i ns) + x < sum_list (take (Suc i) ns)"
    using assms by (simp add: prefix_sum_Suc)
  also have "\<dots> \<le> sum_list ns" by (rule prefix_sum_le_total)
  finally show ?thesis .
qed

lemma selection_within:
  assumes "covers n xs ys zs" "r \<in> set (process_grid xs ys zs)"
    and "c \<in> set (local_cells (domain_at xs ys zs r))"
    and "global_cell (domain_at xs ys zs r) c = (gx, gy, gz)"
  shows "gx < n" "gy < n" "gz < n"
proof -
  obtain i j k where r: "r = (i, j, k)" by (cases r)
  obtain x y z where c: "c = (x, y, z)" by (cases c)
  have t: "sum_list xs = n" "sum_list ys = n" "sum_list zs = n"
    using assms(1) by (simp_all add: covers_def)
  have b: "i < length xs" "j < length ys" "k < length zs"
    using assms(2) by (simp_all add: set_process_grid r)
  have s: "x < xs ! i" "y < ys ! j" "z < zs ! k"
    using assms(3) by (simp_all add: set_local_cells r c domain_at_def)
  have g: "gx = sum_list (take i xs) + x" "gy = sum_list (take j ys) + y"
    "gz = sum_list (take k zs) + z"
    using assms(4) by (simp_all add: global_cell_def r c domain_at_def)
  show "gx < n" using axis_within [OF b(1) s(1)] by (simp only: g t)
  show "gy < n" using axis_within [OF b(2) s(2)] by (simp only: g t)
  show "gz < n" using axis_within [OF b(3) s(3)] by (simp only: g t)
qed

subsection \<open>A checkpoint taken by all ranks\<close>

lemma fold_checkpoint_other:
  assumes "\<forall>r \<in> set rs. g \<notin> global_cell (dm r) ` set (local_cells (dm r))"
  shows "array_u (fold (\<lambda>r cp. checkpoint (dm r) (st r) cp) rs cp) g = array_u cp g"
    and "array_v (fold (\<lambda>r cp. checkpoint (dm r) (st r) cp) rs cp) g = array_v cp g"
  using assms
  by (induction rs arbitrary: cp) (simp_all add: checkpoint_def write_selection_other)

lemma checkpoint_hit:
  assumes "c \<in> set (local_cells d)"
  shows "array_u (checkpoint d UV cp) (global_cell d c) = Some (fst UV ! field_index d (padded c))"
    and "array_v (checkpoint d UV cp) (global_cell d c) = Some (snd UV ! field_index d (padded c))"
  using assms by (simp_all add: checkpoint_def write_selection_hit data_noghost_nth)

lemma fold_checkpoint_hit:
  assumes "r \<in> set rs" "c \<in> set (local_cells (dm r))"
    and "\<forall>r' \<in> set rs. r' \<noteq> r \<longrightarrow>
           global_cell (dm r) c \<notin> global_cell (dm r') ` set (local_cells (dm r'))"
  shows "array_u (fold (\<lambda>r cp. checkpoint (dm r) (st r) cp) rs cp) (global_cell (dm r) c)
           = Some (fst (st r) ! field_index (dm r) (padded c))
       \<and> array_v (fold (\<lambda>r cp. checkpoint (dm r) (st r) cp) rs cp) (global_cell (dm r) c)
           = Some (snd (st r) ! field_index (dm r) (padded c))"
  using assms
proof (induction rs arbitrary: cp)
  case Nil
  then show ?case by simp
next
  case (Cons a rs)
  have rest: "\<forall>r' \<in> set rs. r' \<noteq> r \<longrightarrow>
      global_cell (dm r) c \<notin> global_cell (dm r') ` set (local_cells (dm r'))"
    using Cons.prems(3) by simp
  show ?case
  proof (cases "r \<in> set rs")
    case True
    show ?thesis
      using Cons.IH [OF True Cons.prems(2) rest, of "checkpoint (dm a) (st a) cp"]
      by (simp only: fold_simps comp_apply)
  next
    case False
    then have ra: "a = r" using Cons.prems(1) by simp
    have none: "\<forall>r' \<in> set rs.
        global_cell (dm r) c \<notin> global_cell (dm r') ` set (local_cells (dm r'))"
    proof
      fix r'
      assume m: "r' \<in> set rs"
      then have "r' \<noteq> r" using False by auto
      then show "global_cell (dm r) c \<notin> global_cell (dm r') ` set (local_cells (dm r'))"
        using rest m by simp
    qed
    show ?thesis
      unfolding fold_simps comp_apply ra
      by (simp only: fold_checkpoint_other [OF none] checkpoint_hit [OF Cons.prems(2)])
  qed
qed

subsection \<open>Restoring after a checkpoint\<close>

lemma checkpoint_all_hit:
  assumes "r \<in> set (process_grid xs ys zs)" "c \<in> set (local_cells (domain_at xs ys zs r))"
  shows "array_u (checkpoint_all xs ys zs st) (global_cell (domain_at xs ys zs r) c)
           = Some (fst (st r) ! field_index (domain_at xs ys zs r) (padded c))"
    and "array_v (checkpoint_all xs ys zs st) (global_cell (domain_at xs ys zs r) c)
           = Some (snd (st r) ! field_index (domain_at xs ys zs r) (padded c))"
proof -
  have own: "global_cell (domain_at xs ys zs r) c
      \<in> global_cell (domain_at xs ys zs r) ` set (local_cells (domain_at xs ys zs r))"
    using assms(2) by (rule imageI)
  have alone: "\<forall>r' \<in> set (process_grid xs ys zs). r' \<noteq> r \<longrightarrow>
      global_cell (domain_at xs ys zs r) c
        \<notin> global_cell (domain_at xs ys zs r') ` set (local_cells (domain_at xs ys zs r'))"
    using selections_disjoint [OF assms(1) _ own] by blast
  note hit = fold_checkpoint_hit [where dm = "domain_at xs ys zs" and st = st,
      OF assms(1) assms(2) alone, of no_checkpoint]
  show "array_u (checkpoint_all xs ys zs st) (global_cell (domain_at xs ys zs r) c)
           = Some (fst (st r) ! field_index (domain_at xs ys zs r) (padded c))"
    unfolding checkpoint_all_def using hit by (rule conjunct1)
  show "array_v (checkpoint_all xs ys zs st) (global_cell (domain_at xs ys zs r) c)
           = Some (snd (st r) ! field_index (domain_at xs ys zs r) (padded c))"
    unfolding checkpoint_all_def using hit by (rule conjunct2)
qed

lemma reader_cell_written:
  assumes "covers n xs ys zs" "covers n xs' ys' zs'"
    and "r' \<in> set (process_grid xs' ys' zs')"
    and "c' \<in> set (local_cells (domain_at xs' ys' zs' r'))"
  shows "\<exists>r \<in> set (process_grid xs ys zs). \<exists>c \<in> set (local_cells (domain_at xs ys zs r)).
           global_cell (domain_at xs ys zs r) c = global_cell (domain_at xs' ys' zs' r') c'"
proof -
  obtain gx gy gz where g: "global_cell (domain_at xs' ys' zs' r') c' = (gx, gy, gz)"
    by (cases "global_cell (domain_at xs' ys' zs' r') c'")
  have "gx < n" "gy < n" "gz < n"
    using selection_within [OF assms(2,3,4) g] by simp_all
  then obtain r where r: "r \<in> set (process_grid xs ys zs)"
    "(gx, gy, gz) \<in> global_cell (domain_at xs ys zs r)
        ` set (local_cells (domain_at xs ys zs r))"
    using selections_cover [OF assms(1)] by blast
  then show ?thesis unfolding g by (metis imageE)
qed

lemma restore_after_checkpoint:
  fixes st :: "nat \<times> nat \<times> nat \<Rightarrow> 'a::zero list \<times> 'a list"
  assumes w: "covers n xs ys zs" and rd: "covers n xs' ys' zs'"
    and r': "r' \<in> set (process_grid xs' ys' zs')"
  shows "\<exists>U' V'.
           restore (checkpoint_all xs ys zs st) (domain_at xs' ys' zs' r') = Inr (U', V') \<and>
           length U' = field_size (domain_at xs' ys' zs' r') \<and>
           length V' = field_size (domain_at xs' ys' zs' r') \<and>
           (\<forall>r \<in> set (process_grid xs ys zs).
              \<forall>c \<in> set (local_cells (domain_at xs ys zs r)).
              \<forall>c' \<in> set (local_cells (domain_at xs' ys' zs' r')).
                global_cell (domain_at xs ys zs r) c = global_cell (domain_at xs' ys' zs' r') c'
                \<longrightarrow> U' ! field_index (domain_at xs' ys' zs' r') (padded c')
                      = fst (st r) ! field_index (domain_at xs ys zs r) (padded c)
                  \<and> V' ! field_index (domain_at xs' ys' zs' r') (padded c')
                      = snd (st r) ! field_index (domain_at xs ys zs r) (padded c)) \<and>
           (\<forall>g. ghost (domain_at xs' ys' zs' r') g \<longrightarrow>
              U' ! field_index (domain_at xs' ys' zs' r') g = 0 \<and>
              V' ! field_index (domain_at xs' ys' zs' r') g = 0)"
proof -
  define d' where "d' = domain_at xs' ys' zs' r'"
  define cp where "cp = checkpoint_all xs ys zs st"
  have src: "\<exists>r \<in> set (process_grid xs ys zs). \<exists>c \<in> set (local_cells (domain_at xs ys zs r)).
      global_cell (domain_at xs ys zs r) c = global_cell d' c'"
    if "c' \<in> set (local_cells d')" for c'
    using reader_cell_written [OF w rd r'] that unfolding d'_def by blast
  have some_u: "\<forall>c' \<in> set (local_cells d'). array_u cp (global_cell d' c') \<noteq> None"
    and some_v: "\<forall>c' \<in> set (local_cells d'). array_v cp (global_cell d' c') \<noteq> None"
    using src checkpoint_all_hit [of _ xs ys zs _ st] unfolding cp_def by (metis option.simps(3))+
  obtain bu where bu: "read_selection d' (array_u cp) = Inr bu"
    "\<forall>c' \<in> set (local_cells d'). bu ! noghost_index d' c' = the (array_u cp (global_cell d' c'))"
    using read_selection_ok [OF some_u] by blast
  obtain bv where bv: "read_selection d' (array_v cp) = Inr bv"
    "\<forall>c' \<in> set (local_cells d'). bv ! noghost_index d' c' = the (array_v cp (global_cell d' c'))"
    using read_selection_ok [OF some_v] by blast
  have res: "restore cp d' = Inr (with_ghost d' bu, with_ghost d' bv)"
    by (simp add: restore_def bu(1) bv(1))
  have same: "with_ghost d' bu ! field_index d' (padded c')
        = fst (st r) ! field_index (domain_at xs ys zs r) (padded c)
      \<and> with_ghost d' bv ! field_index d' (padded c')
        = snd (st r) ! field_index (domain_at xs ys zs r) (padded c)"
    if r: "r \<in> set (process_grid xs ys zs)" and c: "c \<in> set (local_cells (domain_at xs ys zs r))"
      and c': "c' \<in> set (local_cells d')"
      and e: "global_cell (domain_at xs ys zs r) c = global_cell d' c'" for r c c'
  proof -
    have "with_ghost d' bu ! field_index d' (padded c') = the (array_u cp (global_cell d' c'))"
      using bu(2) c' by (simp add: with_ghost_interior)
    also have "\<dots> = fst (st r) ! field_index (domain_at xs ys zs r) (padded c)"
      unfolding e [symmetric] cp_def by (simp add: checkpoint_all_hit [OF r c])
    finally have a: "with_ghost d' bu ! field_index d' (padded c')
        = fst (st r) ! field_index (domain_at xs ys zs r) (padded c)" .
    have "with_ghost d' bv ! field_index d' (padded c') = the (array_v cp (global_cell d' c'))"
      using bv(2) c' by (simp add: with_ghost_interior)
    also have "\<dots> = snd (st r) ! field_index (domain_at xs ys zs r) (padded c)"
      unfolding e [symmetric] cp_def by (simp add: checkpoint_all_hit [OF r c])
    finally show ?thesis using a by simp
  qed
  have gh: "with_ghost d' bu ! field_index d' g = 0 \<and> with_ghost d' bv ! field_index d' g = 0"
    if "ghost d' g" for g
    using that by (simp add: with_ghost_ghost)
  have "restore cp d' = Inr (with_ghost d' bu, with_ghost d' bv) \<and>
      length (with_ghost d' bu) = field_size d' \<and> length (with_ghost d' bv) = field_size d' \<and>
      (\<forall>r \<in> set (process_grid xs ys zs).
         \<forall>c \<in> set (local_cells (domain_at xs ys zs r)).
         \<forall>c' \<in> set (local_cells d').
           global_cell (domain_at xs ys zs r) c = global_cell d' c'
           \<longrightarrow> with_ghost d' bu ! field_index d' (padded c')
                 = fst (st r) ! field_index (domain_at xs ys zs r) (padded c)
             \<and> with_ghost d' bv ! field_index d' (padded c')
                 = snd (st r) ! field_index (domain_at xs ys zs r) (padded c)) \<and>
      (\<forall>g. ghost d' g \<longrightarrow>
         with_ghost d' bu ! field_index d' g = 0 \<and> with_ghost d' bv ! field_index d' g = 0)"
    using res same gh by simp
  then show ?thesis unfolding d'_def cp_def by blast
qed

text \<open>
  Claim C5. Let all ranks of a run checkpoint their fields, and let a rank of a run with
  the same or a different process grid over the same global shape restore from it. The
  restore succeeds, and every interior cell of the restored \<open>U\<close> and \<open>V\<close> has exactly the
  value that the rank owning the same global cell had in its interior before the
  checkpoint; every interior cell of the restoring rank has such a source. When the
  process grid is the same, the restored interior of a rank is its own interior before
  the checkpoint. Ghost cells are not part of the round trip: the restored ones are zero.
\<close>

theorem checkpoint_restore_round_trip:
  fixes st :: "nat \<times> nat \<times> nat \<Rightarrow> 'a::zero list \<times> 'a list"
  assumes "covers n xs ys zs" and "covers n xs' ys' zs'"
    and "fields_fit xs ys zs st"
    and "r' \<in> set (process_grid xs' ys' zs')"
  shows "\<exists>U' V'.
           restore (checkpoint_all xs ys zs st) (domain_at xs' ys' zs' r') = Inr (U', V') \<and>
           length U' = field_size (domain_at xs' ys' zs' r') \<and>
           length V' = field_size (domain_at xs' ys' zs' r') \<and>
           (\<forall>r \<in> set (process_grid xs ys zs).
              \<forall>c \<in> set (local_cells (domain_at xs ys zs r)).
              \<forall>c' \<in> set (local_cells (domain_at xs' ys' zs' r')).
                global_cell (domain_at xs ys zs r) c = global_cell (domain_at xs' ys' zs' r') c'
                \<longrightarrow> U' ! field_index (domain_at xs' ys' zs' r') (padded c')
                      = fst (st r) ! field_index (domain_at xs ys zs r) (padded c)
                  \<and> V' ! field_index (domain_at xs' ys' zs' r') (padded c')
                      = snd (st r) ! field_index (domain_at xs ys zs r) (padded c)) \<and>
           (\<forall>c' \<in> set (local_cells (domain_at xs' ys' zs' r')).
              \<exists>r \<in> set (process_grid xs ys zs).
              \<exists>c \<in> set (local_cells (domain_at xs ys zs r)).
                global_cell (domain_at xs ys zs r) c = global_cell (domain_at xs' ys' zs' r') c') \<and>
           (xs' = xs \<and> ys' = ys \<and> zs' = zs \<longrightarrow>
              (\<forall>c \<in> set (local_cells (domain_at xs ys zs r')).
                 U' ! field_index (domain_at xs ys zs r') (padded c)
                   = fst (st r') ! field_index (domain_at xs ys zs r') (padded c)
               \<and> V' ! field_index (domain_at xs ys zs r') (padded c)
                   = snd (st r') ! field_index (domain_at xs ys zs r') (padded c))) \<and>
           (\<forall>g. ghost (domain_at xs' ys' zs' r') g \<longrightarrow>
              U' ! field_index (domain_at xs' ys' zs' r') g = 0 \<and>
              V' ! field_index (domain_at xs' ys' zs' r') g = 0)"
proof -
  obtain U' V' where
    res: "restore (checkpoint_all xs ys zs st) (domain_at xs' ys' zs' r') = Inr (U', V')"
    and len: "length U' = field_size (domain_at xs' ys' zs' r')"
      "length V' = field_size (domain_at xs' ys' zs' r')"
    and same: "\<forall>r \<in> set (process_grid xs ys zs).
              \<forall>c \<in> set (local_cells (domain_at xs ys zs r)).
              \<forall>c' \<in> set (local_cells (domain_at xs' ys' zs' r')).
                global_cell (domain_at xs ys zs r) c = global_cell (domain_at xs' ys' zs' r') c'
                \<longrightarrow> U' ! field_index (domain_at xs' ys' zs' r') (padded c')
                      = fst (st r) ! field_index (domain_at xs ys zs r) (padded c)
                  \<and> V' ! field_index (domain_at xs' ys' zs' r') (padded c')
                      = snd (st r) ! field_index (domain_at xs ys zs r) (padded c)"
    and gh: "\<forall>g. ghost (domain_at xs' ys' zs' r') g \<longrightarrow>
              U' ! field_index (domain_at xs' ys' zs' r') g = 0 \<and>
              V' ! field_index (domain_at xs' ys' zs' r') g = 0"
    using restore_after_checkpoint [OF assms(1,2,4), of st] by blast
  have src: "\<forall>c' \<in> set (local_cells (domain_at xs' ys' zs' r')).
              \<exists>r \<in> set (process_grid xs ys zs).
              \<exists>c \<in> set (local_cells (domain_at xs ys zs r)).
                global_cell (domain_at xs ys zs r) c = global_cell (domain_at xs' ys' zs' r') c'"
    using reader_cell_written [OF assms(1,2,4)] by blast
  have own: "xs' = xs \<and> ys' = ys \<and> zs' = zs \<longrightarrow>
              (\<forall>c \<in> set (local_cells (domain_at xs ys zs r')).
                 U' ! field_index (domain_at xs ys zs r') (padded c)
                   = fst (st r') ! field_index (domain_at xs ys zs r') (padded c)
               \<and> V' ! field_index (domain_at xs ys zs r') (padded c)
                   = snd (st r') ! field_index (domain_at xs ys zs r') (padded c))"
  proof (intro impI ballI)
    fix c
    assume e: "xs' = xs \<and> ys' = ys \<and> zs' = zs"
      and c: "c \<in> set (local_cells (domain_at xs ys zs r'))"
    have m: "r' \<in> set (process_grid xs ys zs)" using assms(4) e by simp
    show "U' ! field_index (domain_at xs ys zs r') (padded c)
            = fst (st r') ! field_index (domain_at xs ys zs r') (padded c)
        \<and> V' ! field_index (domain_at xs ys zs r') (padded c)
            = snd (st r') ! field_index (domain_at xs ys zs r') (padded c)"
      using same [rule_format, OF m, of c c] c e by simp
  qed
  show ?thesis using res len same src own gh by blast
qed

theorem checkpoint_restore_round_trip_witness:
  "covers 2 [1, 1] [2] [2] \<and> covers 2 [2] [2] [2] \<and>
   fields_fit [1, 1] [2] [2] two_rank_state \<and>
   (0, 0, 0) \<in> set (process_grid [2 :: nat] [2] [2]) \<and>
   (\<exists>U' V'.
      restore (checkpoint_all [1, 1] [2] [2] two_rank_state) (domain_at [2] [2] [2] (0, 0, 0))
        = Inr (U', V') \<and>
      length U' = 64 \<and> length V' = 64)"
proof -
  have w: "covers 2 [1, 1] [2] [2]" by (simp add: covers_def)
  have rd: "covers 2 [2] [2] [2]" by (simp add: covers_def)
  have fit: "fields_fit [1, 1] [2] [2] two_rank_state"
    by (simp add: fields_fit_def list_all_iff two_rank_state_def)
  have r': "(0, 0, 0) \<in> set (process_grid [2 :: nat] [2] [2])"
    by (simp add: set_process_grid)
  have sz: "field_size (domain_at [2] [2] [2] (0, 0, 0)) = 64"
    by (simp add: field_size_def domain_at_def)
  show ?thesis
    using w rd fit r' checkpoint_restore_round_trip [OF w rd fit r'] unfolding sz by blast
qed

end
